theory Spec2Isabelle
  imports Complex_Main
begin

section \<open>The side-scrolling game: constants\<close>

text \<open>
  The repository holds two variants of the same game, \<^verbatim>\<open>main.py\<close> and \<^verbatim>\<open>main2.py\<close>.
  Python's \<^verbatim>\<open>//\<close> on integers is floor division, as \<open>div\<close> on \<open>int\<close> is; a
  unary minus binds tighter than \<^verbatim>\<open>//\<close> in Python, so \<^verbatim>\<open>-SCREEN_HEIGHT // 2\<close> is
  \<open>(- SCREEN_HEIGHT) div 2\<close>.
\<close>

definition SCREEN_WIDTH :: int where "SCREEN_WIDTH = 1200"
definition SCREEN_HEIGHT :: int where "SCREEN_HEIGHT = 600"
definition PLAYER_SIZE :: int where "PLAYER_SIZE = 100"
definition OBJECT_SIZE :: int where "OBJECT_SIZE = SCREEN_HEIGHT div 5"
definition GRAVITY :: int where "GRAVITY = 1"
definition PLAYER_SPEED :: int where "PLAYER_SPEED = 15"
definition OBJECT_SPEED :: int where "OBJECT_SPEED = 6"
definition BUFFER :: int where "BUFFER = 20"

text \<open>
  \<^verbatim>\<open>WALL = -SCREEN_WIDTH // 2 + round(1 / 3 * SCREEN_WIDTH)\<close> (main2.py): the product is
  within one unit in the last place of 400, so \<^verbatim>\<open>round\<close> returns 400.
\<close>

definition WALL :: int where "WALL = (- SCREEN_WIDTH) div 2 + 400"

datatype variant = Main | Main2

text \<open>\<^verbatim>\<open>HITPOINTS = 5\<close> in main2.py; main.py writes the literal 1 in \<^verbatim>\<open>Player.__init__\<close>.\<close>

fun HITPOINTS :: "variant \<Rightarrow> int" where
  "HITPOINTS Main = 1"
| "HITPOINTS Main2 = 5"

section \<open>Game objects\<close>

text \<open>
  Turtle coordinates hold whatever number \<^verbatim>\<open>goto\<close> was given. The player and the obstacles
  only ever receive integers. A pickup moves by \<^verbatim>\<open>random.uniform\<close> draws, which are floats;
  they are idealised as reals here, and every draw is an input of the model.
\<close>

record player =
  xcor :: int
  ycor :: int
  dy :: int
  hitpoints :: int

record obstacle =
  ob_xcor :: int
  ob_ycor :: int
  counted :: bool

record pickup =
  pk_xcor :: real
  pk_ycor :: real
  speed :: real

text \<open>The expression \<^verbatim>\<open>-SCREEN_HEIGHT // 2 + PLAYER_SIZE // 2\<close> of \<^verbatim>\<open>jump\<close> and \<^verbatim>\<open>fall\<close>.\<close>

definition ground :: int where
  "ground = (- SCREEN_HEIGHT) div 2 + PLAYER_SIZE div 2"

text \<open>
  main.py moves without a bound. main2.py tests \<^verbatim>\<open>xcor() + 0.5 * OBJECT_SIZE < WALL\<close>, a
  comparison of floats with exact values; it is written here with both sides doubled.
\<close>

fun move_left :: "variant \<Rightarrow> player \<Rightarrow> player" where
  "move_left Main p = p\<lparr>xcor := xcor p - PLAYER_SPEED\<rparr>"
| "move_left Main2 p =
     (if xcor p - OBJECT_SIZE div 2 > (- SCREEN_WIDTH) div 2
      then p\<lparr>xcor := xcor p - PLAYER_SPEED\<rparr> else p)"

fun move_right :: "variant \<Rightarrow> player \<Rightarrow> player" where
  "move_right Main p = p\<lparr>xcor := xcor p + PLAYER_SPEED\<rparr>"
| "move_right Main2 p =
     (if 2 * xcor p + OBJECT_SIZE < 2 * WALL
      then p\<lparr>xcor := xcor p + PLAYER_SPEED\<rparr> else p)"

definition jump :: "player \<Rightarrow> player" where
  "jump p = (if ycor p \<le> ground then p\<lparr>dy := 15\<rparr> else p)"

definition fall :: "player \<Rightarrow> player" where
  "fall p =
     (let p1 = p\<lparr>ycor := ycor p + dy p\<rparr>;
          p2 = p1\<lparr>dy := dy p1 - GRAVITY\<rparr>
      in if ycor p2 \<le> ground then p2\<lparr>dy := 0, ycor := ground\<rparr> else p2)"

definition obstacle_move :: "obstacle \<Rightarrow> obstacle" where
  "obstacle_move ob = ob\<lparr>ob_xcor := ob_xcor ob - OBJECT_SPEED\<rparr>"

definition obstacle_is_out_of_screen :: "obstacle \<Rightarrow> bool" where
  "obstacle_is_out_of_screen ob \<longleftrightarrow>
     ob_xcor ob < (- SCREEN_WIDTH) div 2 - OBJECT_SIZE div 2"

text \<open>
  \<^verbatim>\<open>Pickup.move\<close> draws a speed and a wobble; the two draws are the first two arguments.
\<close>

definition pickup_move :: "real \<Rightarrow> real \<Rightarrow> pickup \<Rightarrow> pickup" where
  "pickup_move s w pk = pk\<lparr>speed := s, pk_xcor := pk_xcor pk - s, pk_ycor := pk_ycor pk + w\<rparr>"

definition pickup_is_out_of_screen :: "pickup \<Rightarrow> bool" where
  "pickup_is_out_of_screen pk \<longleftrightarrow>
     pk_xcor pk < of_int ((- SCREEN_WIDTH) div 2 - OBJECT_SIZE div 2)"

section \<open>The session\<close>

text \<open>
  Game objects are Python objects held by reference in two lists per kind, and they are
  mutated while they sit in the lists. The model keeps an explicit store from object
  identities to object values, and the lists hold identities: \<^verbatim>\<open>list.remove\<close> compares
  turtles by identity.

  The presentation layer is reduced to what the claims observe: the key bindings of the
  screen (\<^verbatim>\<open>onkeypress\<close>, cleared by \<^verbatim>\<open>screen.clear()\<close>), the one-shot timer set by
  \<^verbatim>\<open>screen.ontimer\<close>, and the number of times the game-over screen was drawn.
\<close>

datatype key = Space | KeyA | KeyD

datatype error = ValueError | IndexError

record game =
  player :: player
  obstacles :: "nat \<Rightarrow> obstacle"
  pickups :: "nat \<Rightarrow> pickup"
  waiting_obstacles :: "nat list"
  in_play_obstacles :: "nat list"
  waiting_pickups :: "nat list"
  in_play_pickups :: "nat list"
  score :: int
  obstacle_timer :: int
  pickup_timer :: int
  bound_keys :: "key set"
  timer_pending :: bool
  game_over_shown :: nat

text \<open>
  What one tick reads from outside: the keys pressed since the previous tick, the two
  \<^verbatim>\<open>random.random()\<close> draws of the spawner, and for the iteration at cursor \<open>i\<close> of the
  pickup loop the draws of \<^verbatim>\<open>Pickup.move\<close> and of \<^verbatim>\<open>reset_pickup\<close>.
\<close>

record tick_input =
  keys :: "key list"
  obstacle_draw :: real
  pickup_draw :: real
  speed_draw :: "nat \<Rightarrow> real"
  wobble_draw :: "nat \<Rightarrow> real"
  respawn_draw :: "nat \<Rightarrow> int"

text \<open>
  \<^verbatim>\<open>__init__\<close> up to its call of \<^verbatim>\<open>game_loop\<close>; \<open>ys k\<close> is the \<^verbatim>\<open>random.randint\<close> draw of
  \<^verbatim>\<open>create_pickup\<close> for the \<open>k\<close>-th pickup.
\<close>

definition init :: "variant \<Rightarrow> (nat \<Rightarrow> int) \<Rightarrow> game" where
  "init v ys =
     \<lparr> player = \<lparr> xcor = (- SCREEN_WIDTH) div 3,
                  ycor = (- SCREEN_HEIGHT) div 2 + PLAYER_SIZE div 2,
                  dy = 0, hitpoints = HITPOINTS v \<rparr>,
       obstacles = (\<lambda>k. \<lparr> ob_xcor = SCREEN_WIDTH + OBJECT_SIZE div 2,
                          ob_ycor = (- SCREEN_HEIGHT) div 2 + OBJECT_SIZE div 4,
                          counted = False \<rparr>),
       pickups = (\<lambda>k. \<lparr> pk_xcor = of_int (SCREEN_WIDTH + OBJECT_SIZE div 2),
                        pk_ycor = of_int (ys k),
                        speed = of_int OBJECT_SPEED \<rparr>),
       waiting_obstacles = [0..<10],
       in_play_obstacles = [],
       waiting_pickups = [0..<10],
       in_play_pickups = [],
       score = 0,
       obstacle_timer = 0,
       pickup_timer = 15,
       bound_keys = {Space},
       timer_pending = False,
       game_over_shown = 0 \<rparr>"

text \<open>
  \<^verbatim>\<open>check_collision\<close> takes any game object; it is given the object's coordinates, integers
  for an obstacle and reals for a pickup.
\<close>

definition check_collision :: "game \<Rightarrow> 'a::linordered_idom \<Rightarrow> 'a \<Rightarrow> bool" where
  "check_collision g x y \<longleftrightarrow>
     \<bar>x - of_int (xcor (player g))\<bar> < of_int (OBJECT_SIZE div 2 - BUFFER) \<and>
     \<bar>y - of_int (ycor (player g))\<bar> < of_int (OBJECT_SIZE div 2 - BUFFER)"

text \<open>\<^verbatim>\<open>list.remove\<close> raises \<^verbatim>\<open>ValueError\<close> when the object is not in the list.\<close>

definition reset_obstacle :: "game \<Rightarrow> nat \<Rightarrow> error + game" where
  "reset_obstacle g k =
     (if k \<in> set (in_play_obstacles g) then
        Inr (g\<lparr> in_play_obstacles := remove1 k (in_play_obstacles g),
                waiting_obstacles := waiting_obstacles g @ [k],
                obstacles := (obstacles g)
                  (k := (obstacles g k)\<lparr> ob_xcor := SCREEN_WIDTH + OBJECT_SIZE div 2,
                                         ob_ycor := (- SCREEN_HEIGHT) div 2 + OBJECT_SIZE div 4,
                                         counted := False \<rparr>) \<rparr>)
      else Inl ValueError)"

definition reset_pickup :: "int \<Rightarrow> game \<Rightarrow> nat \<Rightarrow> error + game" where
  "reset_pickup r g k =
     (if k \<in> set (in_play_pickups g) then
        Inr (g\<lparr> in_play_pickups := remove1 k (in_play_pickups g),
                waiting_pickups := waiting_pickups g @ [k],
                pickups := (pickups g)
                  (k := (pickups g k)\<lparr> pk_xcor := of_int (SCREEN_WIDTH + OBJECT_SIZE div 2),
                                       pk_ycor := of_int r \<rparr>) \<rparr>)
      else Inl ValueError)"

definition game_over :: "game \<Rightarrow> bool" where
  "game_over g \<longleftrightarrow> hitpoints (player g) \<le> 0"

text \<open>main.py: the collision or counting chain first, then the off-screen test.\<close>

definition handle_obstacle_main :: "game \<Rightarrow> nat \<Rightarrow> error + game" where
  "handle_obstacle_main g k =
     (case (if check_collision g (ob_xcor (obstacles g k)) (ob_ycor (obstacles g k)) then
              reset_obstacle
                (g\<lparr>player := (player g)\<lparr>hitpoints := hitpoints (player g) - 1\<rparr>\<rparr>) k
            else if ob_xcor (obstacles g k) < xcor (player g) \<and> \<not> counted (obstacles g k) then
              Inr (g\<lparr> score := score g + 1,
                      obstacles := (obstacles g)(k := (obstacles g k)\<lparr>counted := True\<rparr>) \<rparr>)
            else Inr g) of
        Inl e \<Rightarrow> Inl e
      | Inr g1 \<Rightarrow>
          if obstacle_is_out_of_screen (obstacles g1 k) then reset_obstacle g1 k else Inr g1)"

text \<open>main2.py: one chain, the off-screen test first.\<close>

definition handle_obstacle_main2 :: "game \<Rightarrow> nat \<Rightarrow> error + game" where
  "handle_obstacle_main2 g k =
     (if obstacle_is_out_of_screen (obstacles g k) then reset_obstacle g k
      else if check_collision g (ob_xcor (obstacles g k)) (ob_ycor (obstacles g k)) then
        reset_obstacle (g\<lparr>player := (player g)\<lparr>hitpoints := hitpoints (player g) - 1\<rparr>\<rparr>) k
      else if ob_xcor (obstacles g k) < xcor (player g) \<and> \<not> counted (obstacles g k) then
        Inr (g\<lparr> score := score g + 1,
                obstacles := (obstacles g)(k := (obstacles g k)\<lparr>counted := True\<rparr>) \<rparr>)
      else Inr g)"

fun handle_obstacle :: "variant \<Rightarrow> game \<Rightarrow> nat \<Rightarrow> error + game" where
  "handle_obstacle Main = handle_obstacle_main"
| "handle_obstacle Main2 = handle_obstacle_main2"

definition handle_pickup_main :: "int \<Rightarrow> game \<Rightarrow> nat \<Rightarrow> error + game" where
  "handle_pickup_main r g k =
     (case (if check_collision g (pk_xcor (pickups g k)) (pk_ycor (pickups g k))
            then reset_pickup r (g\<lparr>score := score g + 5\<rparr>) k else Inr g) of
        Inl e \<Rightarrow> Inl e
      | Inr g1 \<Rightarrow>
          if pickup_is_out_of_screen (pickups g1 k) then reset_pickup r g1 k else Inr g1)"

definition handle_pickup_main2 :: "int \<Rightarrow> game \<Rightarrow> nat \<Rightarrow> error + game" where
  "handle_pickup_main2 r g k =
     (if pickup_is_out_of_screen (pickups g k) then reset_pickup r g k
      else if check_collision g (pk_xcor (pickups g k)) (pk_ycor (pickups g k))
      then reset_pickup r (g\<lparr>score := score g + 5\<rparr>) k
      else Inr g)"

fun handle_pickup :: "variant \<Rightarrow> int \<Rightarrow> game \<Rightarrow> nat \<Rightarrow> error + game" where
  "handle_pickup Main = handle_pickup_main"
| "handle_pickup Main2 = handle_pickup_main2"

section \<open>The tick\<close>

text \<open>
  A Python \<^verbatim>\<open>for\<close> loop over a list keeps a cursor into the list itself: each round reads
  the element at the cursor, if there is one, and advances the cursor. The handlers
  remove elements from the very list that is iterated, so the loops are written with
  the cursor explicit.
\<close>

lemma reset_obstacle_length:
  "reset_obstacle g k = Inr g' \<Longrightarrow> length (in_play_obstacles g') \<le> length (in_play_obstacles g)"
  by (auto simp: reset_obstacle_def length_remove1 split: if_splits)

lemma handle_obstacle_length:
  "handle_obstacle v g k = Inr g' \<Longrightarrow> length (in_play_obstacles g') \<le> length (in_play_obstacles g)"
  by (cases v)
     (auto simp: handle_obstacle_main_def handle_obstacle_main2_def
           split: if_splits sum.splits dest!: reset_obstacle_length)

lemma reset_pickup_length:
  "reset_pickup r g k = Inr g' \<Longrightarrow> length (in_play_pickups g') \<le> length (in_play_pickups g)"
  by (auto simp: reset_pickup_def length_remove1 split: if_splits)

lemma handle_pickup_length:
  "handle_pickup v r g k = Inr g' \<Longrightarrow> length (in_play_pickups g') \<le> length (in_play_pickups g)"
  by (cases v)
     (auto simp: handle_pickup_main_def handle_pickup_main2_def
           split: if_splits sum.splits dest!: reset_pickup_length)

text \<open>\<^verbatim>\<open>obstacle.move()\<close> on the object with identity \<open>k\<close>.\<close>

definition move_obstacle :: "nat \<Rightarrow> game \<Rightarrow> game" where
  "move_obstacle k g = g\<lparr>obstacles := (obstacles g)(k := obstacle_move (obstacles g k))\<rparr>"

definition move_pickup :: "real \<Rightarrow> real \<Rightarrow> nat \<Rightarrow> game \<Rightarrow> game" where
  "move_pickup s w k g = g\<lparr>pickups := (pickups g)(k := pickup_move s w (pickups g k))\<rparr>"

text \<open>\<^verbatim>\<open>for obstacle in self.in_play_obstacles: obstacle.move(); self.handle_obstacle(obstacle)\<close>\<close>

function obstacle_loop :: "variant \<Rightarrow> nat \<Rightarrow> game \<Rightarrow> error + game" where
  "obstacle_loop v i g =
     (if i < length (in_play_obstacles g) then
        (case handle_obstacle v (move_obstacle (in_play_obstacles g ! i) g)
                (in_play_obstacles g ! i) of
           Inl e \<Rightarrow> Inl e
         | Inr g' \<Rightarrow> obstacle_loop v (i + 1) g')
      else Inr g)"
  by pat_completeness auto
termination
proof (relation "measure (\<lambda>(v, i, g). length (in_play_obstacles g) - i)")
  show "wf (measure (\<lambda>(v, i, g). length (in_play_obstacles g) - i))"
    by simp
next
  fix v :: variant and i :: nat and g g' :: game
  assume "i < length (in_play_obstacles g)"
    and "handle_obstacle v (move_obstacle (in_play_obstacles g ! i) g)
           (in_play_obstacles g ! i) = Inr g'"
  then show "((v, i + 1, g'), (v, i, g))
      \<in> measure (\<lambda>(v, i, g). length (in_play_obstacles g) - i)"
    using handle_obstacle_length [of v "move_obstacle (in_play_obstacles g ! i) g"]
    by (simp add: move_obstacle_def) fastforce
qed

text \<open>\<^verbatim>\<open>for pickup in self.in_play_pickups: pickup.move(); self.handle_pickup(pickup)\<close>\<close>

function pickup_loop :: "variant \<Rightarrow> tick_input \<Rightarrow> nat \<Rightarrow> game \<Rightarrow> error + game" where
  "pickup_loop v inp i g =
     (if i < length (in_play_pickups g) then
        (case handle_pickup v (respawn_draw inp i)
                (move_pickup (speed_draw inp i) (wobble_draw inp i) (in_play_pickups g ! i) g)
                (in_play_pickups g ! i) of
           Inl e \<Rightarrow> Inl e
         | Inr g' \<Rightarrow> pickup_loop v inp (i + 1) g')
      else Inr g)"
  by pat_completeness auto
termination
proof (relation "measure (\<lambda>(v, inp, i, g). length (in_play_pickups g) - i)")
  show "wf (measure (\<lambda>(v, inp, i, g). length (in_play_pickups g) - i))"
    by simp
next
  fix v :: variant and inp :: tick_input and i :: nat and g g' :: game
  assume "i < length (in_play_pickups g)"
    and "handle_pickup v (respawn_draw inp i)
           (move_pickup (speed_draw inp i) (wobble_draw inp i) (in_play_pickups g ! i) g)
           (in_play_pickups g ! i) = Inr g'"
  then show "((v, inp, i + 1, g'), (v, inp, i, g))
      \<in> measure (\<lambda>(v, inp, i, g). length (in_play_pickups g) - i)"
    using handle_pickup_length [of v "respawn_draw inp i"
        "move_pickup (speed_draw inp i) (wobble_draw inp i) (in_play_pickups g ! i) g"]
    by (simp add: move_pickup_def) fastforce
qed

declare obstacle_loop.simps [simp del] pickup_loop.simps [simp del]

text \<open>
  The two spawn blocks of \<^verbatim>\<open>game_loop\<close>, which run after both timers were incremented.
  \<^verbatim>\<open>and\<close> short-circuits, so \<^verbatim>\<open>random.random()\<close> is only drawn when the three tests before
  it hold; the draw is an input either way. \<^verbatim>\<open>pop(0)\<close> raises \<^verbatim>\<open>IndexError\<close> on an empty
  list. main2.py wraps the admission in a second test of the waiting list and resets
  the timer outside it.
\<close>

definition spawn_obstacle :: "variant \<Rightarrow> tick_input \<Rightarrow> game \<Rightarrow> error + game" where
  "spawn_obstacle v inp g =
     (if obstacle_timer g \<ge> 30 \<and> length (in_play_obstacles g) < 10
          \<and> length (waiting_obstacles g) > 0 \<and> obstacle_draw inp \<le> 0.5
      then (case waiting_obstacles g of
              [] \<Rightarrow> (case v of Main \<Rightarrow> Inl IndexError | Main2 \<Rightarrow> Inr (g\<lparr>obstacle_timer := 0\<rparr>))
            | k # ks \<Rightarrow>
                Inr (g\<lparr> waiting_obstacles := ks,
                        in_play_obstacles := in_play_obstacles g @ [k],
                        obstacle_timer := 0 \<rparr>))
      else Inr g)"

definition spawn_pickup :: "variant \<Rightarrow> tick_input \<Rightarrow> game \<Rightarrow> error + game" where
  "spawn_pickup v inp g =
     (if pickup_timer g \<ge> 12 \<and> length (in_play_pickups g) < 1
          \<and> length (waiting_pickups g) > 0 \<and> pickup_draw inp < 0.2
      then (case waiting_pickups g of
              [] \<Rightarrow> (case v of Main \<Rightarrow> Inl IndexError | Main2 \<Rightarrow> Inr (g\<lparr>pickup_timer := 0\<rparr>))
            | k # ks \<Rightarrow>
                Inr (g\<lparr> waiting_pickups := ks,
                        in_play_pickups := in_play_pickups g @ [k],
                        pickup_timer := 0 \<rparr>))
      else Inr g)"

text \<open>
  One call of \<^verbatim>\<open>game_loop\<close>. The running branch binds the keys \<^verbatim>\<open>a\<close> and \<^verbatim>\<open>d\<close> and ends by
  setting the timer for the next call; the other branch clears the screen, which drops
  every key binding, and draws the game-over screen.
\<close>

definition game_loop :: "variant \<Rightarrow> tick_input \<Rightarrow> game \<Rightarrow> error + game" where
  "game_loop v inp g =
     (if \<not> game_over g then
        (case spawn_obstacle v inp
                (g\<lparr>obstacle_timer := obstacle_timer g + 1, pickup_timer := pickup_timer g + 1\<rparr>) of
           Inl e \<Rightarrow> Inl e
         | Inr g1 \<Rightarrow>
        (case spawn_pickup v inp g1 of
           Inl e \<Rightarrow> Inl e
         | Inr g2 \<Rightarrow>
        (case obstacle_loop v 0
                (g2\<lparr>bound_keys := bound_keys g2 \<union> {KeyA, KeyD},
                    player := fall (player g2)\<rparr>) of
           Inl e \<Rightarrow> Inl e
         | Inr g3 \<Rightarrow>
        (case pickup_loop v inp 0 g3 of
           Inl e \<Rightarrow> Inl e
         | Inr g4 \<Rightarrow> Inr (g4\<lparr>timer_pending := True\<rparr>)))))
      else Inr (g\<lparr>bound_keys := {}, game_over_shown := game_over_shown g + 1\<rparr>))"

text \<open>
  Between two calls of \<^verbatim>\<open>game_loop\<close> the event loop delivers the key presses to the
  handlers that are bound, and then fires the timer if one is set.
\<close>

fun handler :: "variant \<Rightarrow> key \<Rightarrow> player \<Rightarrow> player" where
  "handler v Space = jump"
| "handler v KeyA = move_left v"
| "handler v KeyD = move_right v"

definition key_event :: "variant \<Rightarrow> key \<Rightarrow> game \<Rightarrow> game" where
  "key_event v k g = (if k \<in> bound_keys g then g\<lparr>player := handler v k (player g)\<rparr> else g)"

definition session_step :: "variant \<Rightarrow> tick_input \<Rightarrow> game \<Rightarrow> error + game" where
  "session_step v inp g =
     (let g1 = fold (key_event v) (keys inp) g
      in if timer_pending g1 then game_loop v inp (g1\<lparr>timer_pending := False\<rparr>) else Inr g1)"

fun run :: "variant \<Rightarrow> tick_input list \<Rightarrow> game \<Rightarrow> error + game" where
  "run v [] g = Inr g"
| "run v (inp # inps) g =
     (case session_step v inp g of Inl e \<Rightarrow> Inl e | Inr g' \<Rightarrow> run v inps g')"

text \<open>\<^verbatim>\<open>SidescrollingGame()\<close>: the constructor builds the state and calls \<^verbatim>\<open>game_loop\<close> once.\<close>

definition start :: "variant \<Rightarrow> (nat \<Rightarrow> int) \<Rightarrow> tick_input \<Rightarrow> error + game" where
  "start v ys inp = game_loop v inp (init v ys)"

text \<open>The states of a session: after the constructor, and after every later step.\<close>

inductive reachable :: "variant \<Rightarrow> game \<Rightarrow> bool" for v :: variant where
  start: "start v ys inp = Inr g \<Longrightarrow> reachable v g"
| step: "reachable v g \<Longrightarrow> session_step v inp g = Inr g' \<Longrightarrow> reachable v g'"

lemmas const_defs = SCREEN_WIDTH_def SCREEN_HEIGHT_def PLAYER_SIZE_def OBJECT_SIZE_def
  GRAVITY_def PLAYER_SPEED_def OBJECT_SPEED_def BUFFER_def WALL_def ground_def

lemmas handle_defs = handle_obstacle_main_def handle_obstacle_main2_def reset_obstacle_def
  handle_pickup_main_def handle_pickup_main2_def reset_pickup_def

lemma obstacle_loop_stop:
  "\<not> i < length (in_play_obstacles g) \<Longrightarrow> obstacle_loop v i g = Inr g"
  by (subst obstacle_loop.simps) simp

lemma obstacle_loop_step:
  "i < length (in_play_obstacles g) \<Longrightarrow>
   obstacle_loop v i g =
     (case handle_obstacle v (move_obstacle (in_play_obstacles g ! i) g)
             (in_play_obstacles g ! i) of
        Inl e \<Rightarrow> Inl e
      | Inr g' \<Rightarrow> obstacle_loop v (i + 1) g')"
  by (subst obstacle_loop.simps) simp

lemma pickup_loop_stop:
  "\<not> i < length (in_play_pickups g) \<Longrightarrow> pickup_loop v inp i g = Inr g"
  by (subst pickup_loop.simps) simp

lemma pickup_loop_step:
  "i < length (in_play_pickups g) \<Longrightarrow>
   pickup_loop v inp i g =
     (case handle_pickup v (respawn_draw inp i)
             (move_pickup (speed_draw inp i) (wobble_draw inp i) (in_play_pickups g ! i) g)
             (in_play_pickups g ! i) of
        Inl e \<Rightarrow> Inl e
      | Inr g' \<Rightarrow> pickup_loop v inp (i + 1) g')"
  by (subst pickup_loop.simps) simp

text \<open>A handler fails only on an object that is not in play.\<close>

lemma handle_obstacle_total:
  "k \<in> set (in_play_obstacles g) \<Longrightarrow> \<exists>g'. handle_obstacle v g k = Inr g'"
  by (cases v)
     (auto simp: handle_defs obstacle_is_out_of_screen_def const_defs split: sum.splits)

lemma handle_pickup_total:
  "k \<in> set (in_play_pickups g) \<Longrightarrow> \<exists>g'. handle_pickup v r g k = Inr g'"
  by (cases v)
     (auto simp: handle_defs pickup_is_out_of_screen_def const_defs split: sum.splits)

lemma obstacle_loop_induct [consumes 2, case_names step]:
  assumes "obstacle_loop v i g = Inr g'" and "P g"
    and "\<And>g k g'. P g \<Longrightarrow> k \<in> set (in_play_obstacles g) \<Longrightarrow>
            handle_obstacle v (move_obstacle k g) k = Inr g' \<Longrightarrow> P g'"
  shows "P g'"
  using assms
proof (induction v i g rule: obstacle_loop.induct)
  case (1 v i g)
  show ?case
  proof (cases "i < length (in_play_obstacles g)")
    case False
    with "1.prems" show ?thesis by (simp add: obstacle_loop_stop)
  next
    case True
    let ?k = "in_play_obstacles g ! i"
    from True "1.prems"(1) obtain g1 where
      h: "handle_obstacle v (move_obstacle ?k g) ?k = Inr g1" and
      l: "obstacle_loop v (i + 1) g1 = Inr g'"
      by (auto simp: obstacle_loop_step split: sum.splits)
    from True have "?k \<in> set (in_play_obstacles g)" by simp
    with "1.prems"(2,3) h have "P g1" by blast
    then show ?thesis by (rule "1.IH" [OF True h l _ "1.prems"(3)])
  qed
qed

lemma obstacle_loop_total: "\<exists>g'. obstacle_loop v i g = Inr g'"
proof (induction v i g rule: obstacle_loop.induct)
  case (1 v i g)
  show ?case
  proof (cases "i < length (in_play_obstacles g)")
    case False
    then show ?thesis by (simp add: obstacle_loop_stop)
  next
    case True
    let ?k = "in_play_obstacles g ! i"
    from True have "?k \<in> set (in_play_obstacles (move_obstacle ?k g))"
      by (simp add: move_obstacle_def)
    then obtain g1 where h: "handle_obstacle v (move_obstacle ?k g) ?k = Inr g1"
      using handle_obstacle_total by blast
    with "1.IH" True show ?thesis by (simp add: obstacle_loop_step)
  qed
qed

lemma pickup_loop_induct [consumes 2, case_names step]:
  assumes "pickup_loop v inp i g = Inr g'" and "P g"
    and "\<And>g k r s w g'. P g \<Longrightarrow> k \<in> set (in_play_pickups g) \<Longrightarrow>
            handle_pickup v r (move_pickup s w k g) k = Inr g' \<Longrightarrow> P g'"
  shows "P g'"
  using assms
proof (induction v inp i g rule: pickup_loop.induct)
  case (1 v inp i g)
  show ?case
  proof (cases "i < length (in_play_pickups g)")
    case False
    with "1.prems" show ?thesis by (simp add: pickup_loop_stop)
  next
    case True
    let ?k = "in_play_pickups g ! i"
    let ?g = "move_pickup (speed_draw inp i) (wobble_draw inp i) ?k g"
    from True "1.prems"(1) obtain g1 where
      h: "handle_pickup v (respawn_draw inp i) ?g ?k = Inr g1" and
      l: "pickup_loop v inp (i + 1) g1 = Inr g'"
      by (auto simp: pickup_loop_step split: sum.splits)
    from True have "?k \<in> set (in_play_pickups g)" by simp
    with "1.prems"(2,3) h have "P g1" by blast
    then show ?thesis by (rule "1.IH" [OF True h l _ "1.prems"(3)])
  qed
qed

lemma pickup_loop_total: "\<exists>g'. pickup_loop v inp i g = Inr g'"
proof (induction v inp i g rule: pickup_loop.induct)
  case (1 v inp i g)
  show ?case
  proof (cases "i < length (in_play_pickups g)")
    case False
    then show ?thesis by (simp add: pickup_loop_stop)
  next
    case True
    let ?k = "in_play_pickups g ! i"
    let ?g = "move_pickup (speed_draw inp i) (wobble_draw inp i) ?k g"
    from True have "?k \<in> set (in_play_pickups ?g)"
      by (simp add: move_pickup_def)
    then obtain g1 where h: "handle_pickup v (respawn_draw inp i) ?g ?k = Inr g1"
      using handle_pickup_total by blast
    with "1.IH" True show ?thesis by (simp add: pickup_loop_step)
  qed
qed

lemma spawn_obstacle_total: "\<exists>g'. spawn_obstacle v inp g = Inr g'"
  by (cases v) (auto simp: spawn_obstacle_def split: list.splits)

lemma spawn_pickup_total: "\<exists>g'. spawn_pickup v inp g = Inr g'"
  by (cases v) (auto simp: spawn_pickup_def split: list.splits)

text \<open>No call of \<^verbatim>\<open>game_loop\<close> raises.\<close>

lemma game_loop_total: "\<exists>g'. game_loop v inp g = Inr g'"
proof (cases "game_over g")
  case True
  then show ?thesis by (simp add: game_loop_def)
next
  case False
  obtain g1 where g1: "spawn_obstacle v inp
      (g\<lparr>obstacle_timer := obstacle_timer g + 1, pickup_timer := pickup_timer g + 1\<rparr>) = Inr g1"
    using spawn_obstacle_total by blast
  obtain g2 where g2: "spawn_pickup v inp g1 = Inr g2"
    using spawn_pickup_total by blast
  obtain g3 where g3: "obstacle_loop v 0
      (g2\<lparr>bound_keys := bound_keys g2 \<union> {KeyA, KeyD}, player := fall (player g2)\<rparr>) = Inr g3"
    using obstacle_loop_total by blast
  obtain g4 where g4: "pickup_loop v inp 0 g3 = Inr g4"
    using pickup_loop_total by blast
  from False g1 g2 g3 g4 show ?thesis by (simp add: game_loop_def)
qed

lemma session_step_total: "\<exists>g'. session_step v inp g = Inr g'"
  by (simp add: session_step_def Let_def game_loop_total)

lemma run_total: "\<exists>g'. run v inps g = Inr g'"
proof (induction inps arbitrary: g)
  case Nil
  show ?case by simp
next
  case (Cons inp inps)
  obtain g1 where "session_step v inp g = Inr g1"
    using session_step_total by blast
  with Cons [of g1] show ?case by simp
qed

text \<open>The stages of a running tick, named.\<close>

lemma game_loop_running:
  assumes "\<not> game_over g"
  obtains g1 g2 g3 g4 where
    "spawn_obstacle v inp
       (g\<lparr>obstacle_timer := obstacle_timer g + 1, pickup_timer := pickup_timer g + 1\<rparr>) = Inr g1"
    "spawn_pickup v inp g1 = Inr g2"
    "obstacle_loop v 0
       (g2\<lparr>bound_keys := bound_keys g2 \<union> {KeyA, KeyD}, player := fall (player g2)\<rparr>) = Inr g3"
    "pickup_loop v inp 0 g3 = Inr g4"
    "game_loop v inp g = Inr (g4\<lparr>timer_pending := True\<rparr>)"
proof -
  obtain g1 where g1: "spawn_obstacle v inp
      (g\<lparr>obstacle_timer := obstacle_timer g + 1, pickup_timer := pickup_timer g + 1\<rparr>) = Inr g1"
    using spawn_obstacle_total by blast
  obtain g2 where g2: "spawn_pickup v inp g1 = Inr g2"
    using spawn_pickup_total by blast
  obtain g3 where g3: "obstacle_loop v 0
      (g2\<lparr>bound_keys := bound_keys g2 \<union> {KeyA, KeyD}, player := fall (player g2)\<rparr>) = Inr g3"
    using obstacle_loop_total by blast
  obtain g4 where g4: "pickup_loop v inp 0 g3 = Inr g4"
    using pickup_loop_total by blast
  from assms g1 g2 g3 g4 have "game_loop v inp g = Inr (g4\<lparr>timer_pending := True\<rparr>)"
    by (simp add: game_loop_def)
  with g1 g2 g3 g4 that show thesis by blast
qed

lemma game_loop_over:
  "game_over g \<Longrightarrow>
   game_loop v inp g = Inr (g\<lparr>bound_keys := {}, game_over_shown := game_over_shown g + 1\<rparr>)"
  by (simp add: game_loop_def)

text \<open>What the obstacle handlers leave alone, and what the pickup handlers leave alone.\<close>

definition obstacle_frame :: "game \<Rightarrow> game \<Rightarrow> bool" where
  "obstacle_frame g g' \<longleftrightarrow>
     xcor (player g') = xcor (player g) \<and> ycor (player g') = ycor (player g) \<and>
     dy (player g') = dy (player g) \<and> pickups g' = pickups g \<and>
     waiting_pickups g' = waiting_pickups g \<and> in_play_pickups g' = in_play_pickups g \<and>
     obstacle_timer g' = obstacle_timer g \<and> pickup_timer g' = pickup_timer g \<and>
     bound_keys g' = bound_keys g \<and> timer_pending g' = timer_pending g \<and>
     game_over_shown g' = game_over_shown g"

definition pickup_frame :: "game \<Rightarrow> game \<Rightarrow> bool" where
  "pickup_frame g g' \<longleftrightarrow>
     player g' = player g \<and> obstacles g' = obstacles g \<and>
     waiting_obstacles g' = waiting_obstacles g \<and> in_play_obstacles g' = in_play_obstacles g \<and>
     obstacle_timer g' = obstacle_timer g \<and> pickup_timer g' = pickup_timer g \<and>
     bound_keys g' = bound_keys g \<and> timer_pending g' = timer_pending g \<and>
     game_over_shown g' = game_over_shown g"

lemma handle_obstacle_frame:
  "handle_obstacle v (move_obstacle k g) k = Inr g' \<Longrightarrow> obstacle_frame g g'"
  by (cases v)
     (auto simp: handle_defs move_obstacle_def obstacle_frame_def split: if_splits sum.splits)

lemma handle_pickup_frame:
  "handle_pickup v r (move_pickup s w k g) k = Inr g' \<Longrightarrow> pickup_frame g g'"
  by (cases v)
     (auto simp: handle_defs move_pickup_def pickup_frame_def split: if_splits sum.splits)

lemma obstacle_frame_trans:
  "obstacle_frame g g1 \<Longrightarrow> obstacle_frame g1 g2 \<Longrightarrow> obstacle_frame g g2"
  by (simp add: obstacle_frame_def)

lemma pickup_frame_trans:
  "pickup_frame g g1 \<Longrightarrow> pickup_frame g1 g2 \<Longrightarrow> pickup_frame g g2"
  by (simp add: pickup_frame_def)

lemma obstacle_loop_frame:
  assumes "obstacle_loop v i g = Inr g'"
  shows "obstacle_frame g g'"
proof (rule obstacle_loop_induct [OF assms, where P = "obstacle_frame g"])
  show "obstacle_frame g g" by (simp add: obstacle_frame_def)
next
  fix g1 k g2
  assume "obstacle_frame g g1" and "handle_obstacle v (move_obstacle k g1) k = Inr g2"
  then show "obstacle_frame g g2"
    using handle_obstacle_frame obstacle_frame_trans by blast
qed

lemma pickup_loop_frame:
  assumes "pickup_loop v inp i g = Inr g'"
  shows "pickup_frame g g'"
proof (rule pickup_loop_induct [OF assms, where P = "pickup_frame g"])
  show "pickup_frame g g" by (simp add: pickup_frame_def)
next
  fix g1 k r s w g2
  assume "pickup_frame g g1" and "handle_pickup v r (move_pickup s w k g1) k = Inr g2"
  then show "pickup_frame g g2"
    using handle_pickup_frame pickup_frame_trans by blast
qed

text \<open>The stages of a running tick, as one predicate.\<close>

definition tick_stages ::
  "variant \<Rightarrow> tick_input \<Rightarrow> game \<Rightarrow> game \<Rightarrow> game \<Rightarrow> game \<Rightarrow> game \<Rightarrow> bool" where
  "tick_stages v inp g g1 g2 g3 g4 \<longleftrightarrow>
     spawn_obstacle v inp
       (g\<lparr>obstacle_timer := obstacle_timer g + 1, pickup_timer := pickup_timer g + 1\<rparr>) = Inr g1 \<and>
     spawn_pickup v inp g1 = Inr g2 \<and>
     obstacle_loop v 0
       (g2\<lparr>bound_keys := bound_keys g2 \<union> {KeyA, KeyD}, player := fall (player g2)\<rparr>) = Inr g3 \<and>
     pickup_loop v inp 0 g3 = Inr g4 \<and>
     game_loop v inp g = Inr (g4\<lparr>timer_pending := True\<rparr>)"

lemma game_loop_stages:
  assumes "\<not> game_over g"
  shows "\<exists>g1 g2 g3 g4. tick_stages v inp g g1 g2 g3 g4"
  unfolding tick_stages_def using game_loop_running [OF assms, of v inp] by metis

text \<open>
  An invariant of the session: it holds after the constructor's state is built, every
  key handler keeps it, and every call of \<^verbatim>\<open>game_loop\<close> keeps it, whether or not the
  timer flag is set when the call starts.
\<close>

lemma fold_key_event_invariant:
  assumes "P g" and "\<And>g k. P g \<Longrightarrow> P (key_event v k g)"
  shows "P (fold (key_event v) ks g)"
  using assms(1)
proof (induction ks arbitrary: g)
  case Nil
  then show ?case by simp
next
  case (Cons k ks)
  from Cons.prems have "P (key_event v k g)" by (rule assms(2))
  then show ?case using Cons.IH by simp
qed

lemma reachable_invariant:
  assumes r: "reachable v g"
    and i: "\<And>ys. P (init v ys)"
    and k: "\<And>g k. P g \<Longrightarrow> P (key_event v k g)"
    and t: "\<And>g b inp g'. P g \<Longrightarrow> game_loop v inp (g\<lparr>timer_pending := b\<rparr>) = Inr g' \<Longrightarrow> P g'"
  shows "P g"
  using r
proof (induction rule: reachable.induct)
  case (start ys inp g)
  from start have "game_loop v inp ((init v ys)\<lparr>timer_pending := False\<rparr>) = Inr g"
    by (simp add: start_def init_def)
  with i show ?case by (rule t)
next
  case (step g inp g')
  let ?g1 = "fold (key_event v) (keys inp) g"
  from step.IH k have p: "P ?g1" by (rule fold_key_event_invariant)
  show ?case
  proof (cases "timer_pending ?g1")
    case True
    with step.hyps(2) have "game_loop v inp (?g1\<lparr>timer_pending := False\<rparr>) = Inr g'"
      by (simp add: session_step_def Let_def)
    with p show ?thesis by (rule t)
  next
    case False
    with step.hyps(2) p show ?thesis
      by (simp add: session_step_def Let_def)
  qed
qed

lemma handler_ycor: "ycor (handler v k p) = ycor p"
  by (cases v; cases k) (simp_all add: jump_def)

lemma fall_ground: "ground \<le> ycor (fall p)"
  by (simp add: fall_def Let_def)

lemma fall_rest: "ycor p = ground \<Longrightarrow> dy p = 0 \<Longrightarrow> fall p = p"
  by (simp add: fall_def Let_def const_defs)

lemma fall_rest_funpow: "ycor p = ground \<Longrightarrow> dy p = 0 \<Longrightarrow> (fall ^^ n) p = p"
  by (induction n) (simp_all add: fall_rest)

lemma jump_lands:
  assumes "ycor p = ground"
  shows "(fall ^^ 31) (jump p) = p\<lparr>ycor := ground, dy := 0\<rparr>"
  using assms by (simp add: jump_def fall_def Let_def const_defs eval_nat_numeral)

lemma jump_lands_later:
  assumes "ycor p = ground" and "31 \<le> n"
  shows "(fall ^^ n) (jump p) = p\<lparr>ycor := ground, dy := 0\<rparr>"
proof -
  from assms(2) have "n = (n - 31) + 31" by simp
  then have "(fall ^^ n) (jump p) = (fall ^^ (n - 31)) ((fall ^^ 31) (jump p))"
    by (metis comp_apply funpow_add)
  also have "\<dots> = (fall ^^ (n - 31)) (p\<lparr>ycor := ground, dy := 0\<rparr>)"
    using assms(1) by (simp only: jump_lands)
  also have "\<dots> = p\<lparr>ycor := ground, dy := 0\<rparr>"
    by (rule fall_rest_funpow) simp_all
  finally show ?thesis .
qed

lemma game_loop_ycor:
  assumes "ground \<le> ycor (player g)" and "game_loop v inp g = Inr g'"
  shows "ground \<le> ycor (player g')"
proof (cases "game_over g")
  case True
  with assms show ?thesis by (auto simp: game_loop_over)
next
  case False
  then obtain g1 g2 g3 g4 where s: "tick_stages v inp g g1 g2 g3 g4"
    using game_loop_stages by blast
  from s have "ycor (player g3) = ycor (fall (player g2))"
    by (auto dest!: obstacle_loop_frame simp: obstacle_frame_def tick_stages_def)
  moreover from s have "player g4 = player g3"
    by (auto dest!: pickup_loop_frame simp: pickup_frame_def tick_stages_def)
  moreover from s assms(2) have "g' = g4\<lparr>timer_pending := True\<rparr>"
    by (simp add: tick_stages_def)
  ultimately show ?thesis using fall_ground [of "player g2"] by simp
qed

lemma reachable_ycor:
  assumes "reachable v g"
  shows "ground \<le> ycor (player g)"
  using assms
proof (rule reachable_invariant)
  show "ground \<le> ycor (player (init v ys))" for ys
    by (simp add: init_def ground_def)
next
  show "ground \<le> ycor (player (key_event v k g))" if "ground \<le> ycor (player g)" for g k
    using that by (simp add: key_event_def handler_ycor)
next
  show "ground \<le> ycor (player g')"
    if "ground \<le> ycor (player g)" and "game_loop v inp (g\<lparr>timer_pending := b\<rparr>) = Inr g'"
    for g b inp g'
    using that game_loop_ycor [of "g\<lparr>timer_pending := b\<rparr>" v inp g'] by simp
qed

text \<open>Concrete inputs for the examples: no key, both spawn draws failing.\<close>

definition quiet :: tick_input where
  "quiet = \<lparr> keys = [], obstacle_draw = 0.9, pickup_draw = 0.9,
             speed_draw = (\<lambda>i. 3), wobble_draw = (\<lambda>i. 0), respawn_draw = (\<lambda>i. - 100) \<rparr>"

definition first_state :: "variant \<Rightarrow> game" where
  "first_state v = (init v (\<lambda>k. - 100))
     \<lparr> obstacle_timer := 1, pickup_timer := 16,
       bound_keys := {Space, KeyA, KeyD}, timer_pending := True \<rparr>"

lemma start_quiet: "start v (\<lambda>k. - 100) quiet = Inr (first_state v)"
  by (cases v)
     (auto simp: start_def game_loop_def game_over_def init_def quiet_def first_state_def
        spawn_obstacle_def spawn_pickup_def obstacle_loop_stop pickup_loop_stop fall_def
        const_defs)

lemma reachable_first_state: "reachable v (first_state v)"
  using start_quiet by (rule reachable.start)

text \<open>
  C5. After \<^verbatim>\<open>fall\<close> the player is never below the ground level, in every state of a
  session the player is at or above it, \<^verbatim>\<open>jump\<close> sets \<open>dy\<close> to 15 at ground level and does
  nothing in mid-air, and a jump from the ground followed by 31 or more falls ends at
  exactly the ground level with \<open>dy = 0\<close>.
\<close>

theorem ground_clamp:
  "ground \<le> ycor (fall p) \<and>
   (reachable v g \<longrightarrow> ground \<le> ycor (player g)) \<and>
   (ycor p \<le> ground \<longrightarrow> jump p = p\<lparr>dy := 15\<rparr>) \<and>
   (ground < ycor p \<longrightarrow> jump p = p) \<and>
   (ycor p = ground \<longrightarrow> (\<forall>n\<ge>31. (fall ^^ n) (jump p) = p\<lparr>ycor := ground, dy := 0\<rparr>))"
  by (simp add: fall_ground reachable_ycor jump_lands_later) (simp add: jump_def)

theorem ground_clamp_witness:
  "reachable Main (first_state Main) \<and> ground \<le> ycor (player (first_state Main)) \<and>
   ycor (player (first_state Main)) = ground \<and>
   jump (player (first_state Main)) = (player (first_state Main))\<lparr>dy := 15\<rparr> \<and>
   (fall ^^ 40) (jump (player (first_state Main))) =
     (player (first_state Main))\<lparr>ycor := ground, dy := 0\<rparr> \<and>
   ground < ycor (fall (jump (player (first_state Main)))) \<and>
   jump (fall (jump (player (first_state Main)))) = fall (jump (player (first_state Main)))"
proof -
  let ?p = "player (first_state Main)"
  have y: "ycor ?p = ground"
    by (simp add: first_state_def init_def ground_def)
  have a: "ground < ycor (fall (jump ?p))"
    by (simp add: first_state_def init_def jump_def fall_def const_defs)
  note t = ground_clamp [of ?p Main "first_state Main"]
  note u = ground_clamp [of "fall (jump ?p)" Main "first_state Main"]
  from t reachable_first_state [of Main] have 1: "ground \<le> ycor ?p" by blast
  from t y have 2: "jump ?p = ?p\<lparr>dy := 15\<rparr>" by simp
  from t y have "\<forall>n\<ge>31. (fall ^^ n) (jump ?p) = ?p\<lparr>ycor := ground, dy := 0\<rparr>"
    by blast
  then have 3: "(fall ^^ 40) (jump ?p) = ?p\<lparr>ycor := ground, dy := 0\<rparr>"
    by (rule allE [where x = 40]) simp
  from u a have 4: "jump (fall (jump ?p)) = fall (jump ?p)" by blast
  from reachable_first_state [of Main] 1 y 2 3 a 4 show ?thesis by blast
qed

lemma spawn_obstacle_timer:
  assumes "spawn_obstacle v inp g = Inr g'"
  shows "obstacle_timer g' =
           (if 30 \<le> obstacle_timer g \<and> length (in_play_obstacles g) < 10 \<and>
               waiting_obstacles g \<noteq> [] \<and> obstacle_draw inp \<le> 0.5
            then 0 else obstacle_timer g)"
    and "pickup_timer g' = pickup_timer g"
    and "waiting_pickups g' = waiting_pickups g"
    and "in_play_pickups g' = in_play_pickups g"
  using assms by (auto simp: spawn_obstacle_def split: if_splits list.splits variant.splits)

lemma spawn_pickup_timer:
  assumes "spawn_pickup v inp g = Inr g'"
  shows "pickup_timer g' =
           (if 12 \<le> pickup_timer g \<and> length (in_play_pickups g) < 1 \<and>
               waiting_pickups g \<noteq> [] \<and> pickup_draw inp < 0.2
            then 0 else pickup_timer g)"
    and "obstacle_timer g' = obstacle_timer g"
  using assms by (auto simp: spawn_pickup_def split: if_splits list.splits variant.splits)

text \<open>A state in which both timers are one tick short of, or beyond, their thresholds.\<close>

definition stalled :: "variant \<Rightarrow> game" where
  "stalled v = (first_state v)\<lparr>obstacle_timer := 29, pickup_timer := 44\<rparr>"

lemma game_loop_stalled:
  "game_loop v quiet (stalled v) = Inr ((stalled v)\<lparr>obstacle_timer := 30, pickup_timer := 45\<rparr>)"
  by (cases v)
     (auto simp: game_loop_def game_over_def init_def quiet_def first_state_def stalled_def
        spawn_obstacle_def spawn_pickup_def obstacle_loop_stop pickup_loop_stop fall_def
        const_defs)

text \<open>
  C1, as stated, fails: in \<open>stalled\<close> the obstacle timer reaches 30 and the pickup timer
  is past 12 on the next tick, no entity is in play and both waiting pools are full, the
  two draws fail, and neither timer is reset.
\<close>

theorem spawn_timer_counterexample:
  "30 \<le> obstacle_timer (stalled Main) + 1 \<and>
   length (in_play_obstacles (stalled Main)) < 10 \<and>
   0 < length (waiting_obstacles (stalled Main)) \<and>
   12 \<le> pickup_timer (stalled Main) + 1 \<and>
   length (in_play_pickups (stalled Main)) < 1 \<and>
   0 < length (waiting_pickups (stalled Main)) \<and>
   game_loop Main quiet (stalled Main) =
     Inr ((stalled Main)\<lparr>obstacle_timer := 30, pickup_timer := 45\<rparr>) \<and>
   game_loop Main2 quiet (stalled Main2) =
     Inr ((stalled Main2)\<lparr>obstacle_timer := 30, pickup_timer := 45\<rparr>)"
  by (simp add: game_loop_stalled) (simp add: stalled_def first_state_def init_def)

text \<open>
  Obstacle 0 alone in play, at the given position and with the given flag, and the player
  at the given position with one hitpoint; everything else as after the first tick.
\<close>

definition scene :: "variant \<Rightarrow> int \<Rightarrow> int \<Rightarrow> bool \<Rightarrow> int \<Rightarrow> int \<Rightarrow> game" where
  "scene v ox oy c px py = (first_state v)
     \<lparr> player := \<lparr> xcor = px, ycor = py, dy = 0, hitpoints = 1 \<rparr>,
       waiting_obstacles := [1..<10],
       in_play_obstacles := [0],
       obstacles := (obstacles (first_state v))
         (0 := \<lparr> ob_xcor = ox, ob_ycor = oy, counted = c \<rparr>) \<rparr>"

text \<open>The same scene after obstacle 0 was recycled.\<close>

definition recycled_scene :: "variant \<Rightarrow> int \<Rightarrow> int \<Rightarrow> game" where
  "recycled_scene v px py = (first_state v)
     \<lparr> player := \<lparr> xcor = px, ycor = py, dy = 0, hitpoints = 1 \<rparr>,
       waiting_obstacles := [1..<10] @ [0],
       in_play_obstacles := [] \<rparr>"

lemmas scene_defs = scene_def recycled_scene_def first_state_def init_def quiet_def

lemma handle_main_colliding:
  "check_collision g (ob_xcor (obstacles g k)) (ob_ycor (obstacles g k)) \<Longrightarrow>
   handle_obstacle_main g k =
     reset_obstacle (g\<lparr>player := (player g)\<lparr>hitpoints := hitpoints (player g) - 1\<rparr>\<rparr>) k"
  by (auto simp: handle_defs obstacle_is_out_of_screen_def const_defs split: sum.splits)

text \<open>
  C9, as stated, fails: obstacle 0 is past the off-screen boundary, left of the player,
  not counted and not colliding (the player is in the air). main.py awards the dodge
  point and then recycles, main2.py only recycles, so the scores differ.
\<close>

theorem handle_obstacle_variants_counterexample:
  "\<not> check_collision (scene Main (- 666) (- 270) False (- 655) (- 100)) (- 666 :: int) (- 270) \<and>
   obstacle_is_out_of_screen (obstacles (scene Main (- 666) (- 270) False (- 655) (- 100)) 0) \<and>
   handle_obstacle_main (scene Main (- 666) (- 270) False (- 655) (- 100)) 0 =
     Inr ((recycled_scene Main (- 655) (- 100))\<lparr>score := 1\<rparr>) \<and>
   handle_obstacle_main2 (scene Main (- 666) (- 270) False (- 655) (- 100)) 0 =
     Inr (recycled_scene Main (- 655) (- 100)) \<and>
   score (recycled_scene Main (- 655) (- 100)) = 0"
  by (simp add: handle_defs check_collision_def obstacle_is_out_of_screen_def const_defs
        scene_defs fun_upd_idem)


text \<open>
  C9, amended: main.py tests the collision first and main2.py the off-screen boundary
  first. The two resolutions return the same state (hence the same score, hitpoints and
  pools) for every obstacle that is not past the off-screen boundary, and for every
  obstacle past it that is neither colliding nor due its dodge point. They differ in the
  two remaining cases: past the boundary and colliding, main.py takes a hitpoint before
  recycling and main2.py only recycles; past the boundary, not colliding, left of the
  player and not counted, main.py adds the dodge point before recycling and main2.py
  only recycles.
\<close>

theorem handle_obstacle_variants:
  "(\<not> obstacle_is_out_of_screen (obstacles g k) \<or>
    (\<not> check_collision g (ob_xcor (obstacles g k)) (ob_ycor (obstacles g k)) \<and>
     \<not> (ob_xcor (obstacles g k) < xcor (player g) \<and> \<not> counted (obstacles g k)))
      \<longrightarrow> handle_obstacle_main g k = handle_obstacle_main2 g k) \<and>
   (obstacle_is_out_of_screen (obstacles g k) \<and>
    check_collision g (ob_xcor (obstacles g k)) (ob_ycor (obstacles g k))
      \<longrightarrow> handle_obstacle_main g k =
            reset_obstacle (g\<lparr>player := (player g)\<lparr>hitpoints := hitpoints (player g) - 1\<rparr>\<rparr>) k \<and>
          handle_obstacle_main2 g k = reset_obstacle g k) \<and>
   (obstacle_is_out_of_screen (obstacles g k) \<and>
    \<not> check_collision g (ob_xcor (obstacles g k)) (ob_ycor (obstacles g k)) \<and>
    ob_xcor (obstacles g k) < xcor (player g) \<and> \<not> counted (obstacles g k)
      \<longrightarrow> handle_obstacle_main g k =
            reset_obstacle (g\<lparr> score := score g + 1,
              obstacles := (obstacles g)(k := (obstacles g k)\<lparr>counted := True\<rparr>) \<rparr>) k \<and>
          handle_obstacle_main2 g k = reset_obstacle g k)"
proof (intro conjI impI)
  assume "\<not> obstacle_is_out_of_screen (obstacles g k) \<or>
    (\<not> check_collision g (ob_xcor (obstacles g k)) (ob_ycor (obstacles g k)) \<and>
     \<not> (ob_xcor (obstacles g k) < xcor (player g) \<and> \<not> counted (obstacles g k)))"
  then show "handle_obstacle_main g k = handle_obstacle_main2 g k"
    by (auto simp: handle_defs obstacle_is_out_of_screen_def const_defs split: sum.splits)
next
  assume "obstacle_is_out_of_screen (obstacles g k) \<and>
    check_collision g (ob_xcor (obstacles g k)) (ob_ycor (obstacles g k))"
  then show "handle_obstacle_main g k =
      reset_obstacle (g\<lparr>player := (player g)\<lparr>hitpoints := hitpoints (player g) - 1\<rparr>\<rparr>) k"
    by (simp add: handle_main_colliding)
next
  assume "obstacle_is_out_of_screen (obstacles g k) \<and>
    check_collision g (ob_xcor (obstacles g k)) (ob_ycor (obstacles g k))"
  then show "handle_obstacle_main2 g k = reset_obstacle g k"
    by (simp add: handle_obstacle_main2_def)
next
  assume "obstacle_is_out_of_screen (obstacles g k) \<and>
    \<not> check_collision g (ob_xcor (obstacles g k)) (ob_ycor (obstacles g k)) \<and>
    ob_xcor (obstacles g k) < xcor (player g) \<and> \<not> counted (obstacles g k)"
  then show "handle_obstacle_main g k =
      reset_obstacle (g\<lparr> score := score g + 1,
        obstacles := (obstacles g)(k := (obstacles g k)\<lparr>counted := True\<rparr>) \<rparr>) k"
    by (simp add: handle_obstacle_main_def obstacle_is_out_of_screen_def)
next
  assume "obstacle_is_out_of_screen (obstacles g k) \<and>
    \<not> check_collision g (ob_xcor (obstacles g k)) (ob_ycor (obstacles g k)) \<and>
    ob_xcor (obstacles g k) < xcor (player g) \<and> \<not> counted (obstacles g k)"
  then show "handle_obstacle_main2 g k = reset_obstacle g k"
    by (simp add: handle_obstacle_main2_def)
qed

text \<open>
  The agreement at an obstacle on the screen that hits the player; the first difference
  at an obstacle past the boundary that the player, standing at the left edge, touches;
  the second difference at the scene of the counterexample.
\<close>

theorem handle_obstacle_variants_witness:
  "\<not> obstacle_is_out_of_screen (obstacles (scene Main (- 400) (- 270) False (- 400) (- 250)) 0) \<and>
   handle_obstacle_main (scene Main (- 400) (- 270) False (- 400) (- 250)) 0 =
     handle_obstacle_main2 (scene Main (- 400) (- 270) False (- 400) (- 250)) 0 \<and>
   handle_obstacle_main2 (scene Main (- 400) (- 270) False (- 400) (- 250)) 0 =
     Inr ((recycled_scene Main (- 400) (- 250))
       \<lparr>player := \<lparr> xcor = - 400, ycor = - 250, dy = 0, hitpoints = 0 \<rparr>\<rparr>) \<and>
   obstacle_is_out_of_screen (obstacles (scene Main (- 666) (- 270) False (- 640) (- 250)) 0) \<and>
   check_collision (scene Main (- 666) (- 270) False (- 640) (- 250)) (- 666 :: int) (- 270) \<and>
   handle_obstacle_main (scene Main (- 666) (- 270) False (- 640) (- 250)) 0 =
     Inr ((recycled_scene Main (- 640) (- 250))
       \<lparr>player := \<lparr> xcor = - 640, ycor = - 250, dy = 0, hitpoints = 0 \<rparr>\<rparr>) \<and>
   handle_obstacle_main2 (scene Main (- 666) (- 270) False (- 640) (- 250)) 0 =
     Inr (recycled_scene Main (- 640) (- 250)) \<and>
   handle_obstacle_main (scene Main (- 666) (- 270) False (- 655) (- 100)) 0 =
     Inr ((recycled_scene Main (- 655) (- 100))\<lparr>score := 1\<rparr>) \<and>
   handle_obstacle_main2 (scene Main (- 666) (- 270) False (- 655) (- 100)) 0 =
     Inr (recycled_scene Main (- 655) (- 100))"
proof -
  have a: "handle_obstacle_main (scene Main (- 400) (- 270) False (- 400) (- 250)) 0 =
      handle_obstacle_main2 (scene Main (- 400) (- 270) False (- 400) (- 250)) 0"
    using handle_obstacle_variants [of "scene Main (- 400) (- 270) False (- 400) (- 250)" 0]
    by (simp add: obstacle_is_out_of_screen_def const_defs scene_defs)
  have b: "handle_obstacle_main (scene Main (- 666) (- 270) False (- 640) (- 250)) 0 =
      Inr ((recycled_scene Main (- 640) (- 250))
        \<lparr>player := \<lparr> xcor = - 640, ycor = - 250, dy = 0, hitpoints = 0 \<rparr>\<rparr>)"
    using handle_obstacle_variants [of "scene Main (- 666) (- 270) False (- 640) (- 250)" 0]
    by (simp add: obstacle_is_out_of_screen_def check_collision_def reset_obstacle_def
          const_defs scene_defs fun_upd_idem)
  have c: "handle_obstacle_main (scene Main (- 666) (- 270) False (- 655) (- 100)) 0 =
      Inr ((recycled_scene Main (- 655) (- 100))\<lparr>score := 1\<rparr>)"
    using handle_obstacle_variants [of "scene Main (- 666) (- 270) False (- 655) (- 100)" 0]
    by (simp add: obstacle_is_out_of_screen_def check_collision_def reset_obstacle_def
          const_defs scene_defs fun_upd_idem)
  have d: "\<not> obstacle_is_out_of_screen (obstacles (scene Main (- 400) (- 270) False (- 400) (- 250)) 0) \<and>
      handle_obstacle_main2 (scene Main (- 400) (- 270) False (- 400) (- 250)) 0 =
        Inr ((recycled_scene Main (- 400) (- 250))
          \<lparr>player := \<lparr> xcor = - 400, ycor = - 250, dy = 0, hitpoints = 0 \<rparr>\<rparr>) \<and>
      obstacle_is_out_of_screen (obstacles (scene Main (- 666) (- 270) False (- 640) (- 250)) 0) \<and>
      check_collision (scene Main (- 666) (- 270) False (- 640) (- 250)) (- 666 :: int) (- 270) \<and>
      handle_obstacle_main2 (scene Main (- 666) (- 270) False (- 640) (- 250)) 0 =
        Inr (recycled_scene Main (- 640) (- 250)) \<and>
      handle_obstacle_main2 (scene Main (- 666) (- 270) False (- 655) (- 100)) 0 =
        Inr (recycled_scene Main (- 655) (- 100))"
    by (simp add: handle_defs check_collision_def obstacle_is_out_of_screen_def const_defs
          scene_defs fun_upd_idem)
  from a b c d show ?thesis by simp
qed

section \<open>Dodge points\<close>

text \<open>
  The resolution of obstacle \<open>k\<close> awards its dodge point: it does not collide, it is left
  of the player and not counted, and in main2.py it is not past the off-screen boundary.
\<close>

definition dodge_point :: "variant \<Rightarrow> game \<Rightarrow> nat \<Rightarrow> bool" where
  "dodge_point v g k \<longleftrightarrow>
     \<not> check_collision g (ob_xcor (obstacles g k)) (ob_ycor (obstacles g k)) \<and>
     ob_xcor (obstacles g k) < xcor (player g) \<and> \<not> counted (obstacles g k) \<and>
     \<not> (v = Main2 \<and> obstacle_is_out_of_screen (obstacles g k))"

text \<open>
  One stay of obstacle \<open>k\<close> outside the waiting pool: \<open>lifetime v k g n g'\<close> holds when \<open>g'\<close>
  comes from \<open>g\<close> by iterations of the obstacle loop on \<open>k\<close> that do not recycle it, which
  add \<open>n\<close> to the score in total, by iterations of the loop on other obstacles, and by
  steps that leave the obstacle objects alone.
\<close>

inductive lifetime :: "variant \<Rightarrow> nat \<Rightarrow> game \<Rightarrow> int \<Rightarrow> game \<Rightarrow> bool" for v k g where
  fresh: "lifetime v k g 0 g"
| resolve: "lifetime v k g n g1 \<Longrightarrow> handle_obstacle v (move_obstacle k g1) k = Inr g2 \<Longrightarrow>
    k \<notin> set (waiting_obstacles g2) \<Longrightarrow> lifetime v k g (n + (score g2 - score g1)) g2"
| other: "lifetime v k g n g1 \<Longrightarrow> handle_obstacle v (move_obstacle j g1) j = Inr g2 \<Longrightarrow>
    j \<noteq> k \<Longrightarrow> lifetime v k g n g2"
| outside: "lifetime v k g n g1 \<Longrightarrow> obstacles g2 = obstacles g1 \<Longrightarrow> lifetime v k g n g2"

lemma handle_obstacle_score:
  assumes "handle_obstacle v g k = Inr g'"
  shows "score g' = score g + (if dodge_point v g k then 1 else 0)"
  using assms
  by (cases v)
     (auto simp: handle_defs dodge_point_def split: if_splits sum.splits)

lemma handle_obstacle_counted:
  assumes "handle_obstacle v g k = Inr g'" and "dodge_point v g k"
    and "k \<notin> set (waiting_obstacles g')"
  shows "counted (obstacles g' k)"
  using assms
  by (cases v)
     (auto simp: handle_defs dodge_point_def split: if_splits sum.splits)

lemma handle_obstacle_kept:
  assumes "handle_obstacle v g k = Inr g'" and "\<not> dodge_point v g k"
    and "k \<notin> set (waiting_obstacles g')"
  shows "obstacles g' k = obstacles g k"
  using assms
  by (cases v)
     (auto simp: handle_defs dodge_point_def split: if_splits sum.splits)

lemma handle_obstacle_other:
  assumes "handle_obstacle v g j = Inr g'" and "j \<noteq> k"
  shows "obstacles g' k = obstacles g k"
  using assms
  by (cases v)
     (auto simp: handle_defs split: if_splits sum.splits)

lemma reset_obstacle_counted:
  assumes "reset_obstacle g k = Inr g'"
  shows "\<not> counted (obstacles g' k) \<and> k \<in> set (waiting_obstacles g')"
  using assms by (auto simp: reset_obstacle_def split: if_splits)

lemma dodge_point_move:
  "dodge_point v (move_obstacle k g) k \<Longrightarrow> \<not> counted (obstacles g k)"
  by (simp add: dodge_point_def move_obstacle_def obstacle_move_def)

lemma lifetime_counted:
  assumes "lifetime v k g n g'" and "\<not> counted (obstacles g k)"
  shows "n = (if counted (obstacles g' k) then 1 else 0)"
  using assms
proof (induction rule: lifetime.induct)
  case fresh
  then show ?case by simp
next
  case (resolve n g1 g2)
  show ?case
  proof (cases "dodge_point v (move_obstacle k g1) k")
    case True
    with resolve show ?thesis
      using handle_obstacle_score [OF resolve.hyps(2)]
        handle_obstacle_counted [OF resolve.hyps(2)] dodge_point_move [of v k g1]
      by (simp add: move_obstacle_def)
  next
    case False
    with resolve show ?thesis
      using handle_obstacle_score [OF resolve.hyps(2)]
        handle_obstacle_kept [OF resolve.hyps(2)]
      by (simp add: move_obstacle_def obstacle_move_def)
  qed
next
  case (other n g1 j g2)
  then show ?case
    using handle_obstacle_other [OF other.hyps(2), of k]
    by (simp add: move_obstacle_def)
next
  case (outside n g1 g2)
  then show ?case by simp
qed


text \<open>
  C4, as stated, fails: obstacle 0 is at \<open>x = - 414\<close>, right of the player at \<open>x = - 415\<close>, and
  not counted. The tick moves it to \<open>- 420\<close>, so this is the first tick on which it is left
  of the player with the flag false; the player stands on the ground, the obstacle
  collides, and it is recycled with no dodge point, in both variants.
\<close>

theorem dodge_point_counterexample:
  "\<not> ob_xcor (obstacles (scene Main (- 414) (- 270) False (- 415) (- 250)) 0)
       < xcor (player (scene Main (- 414) (- 270) False (- 415) (- 250))) \<and>
   ob_xcor (obstacles (move_obstacle 0 (scene Main (- 414) (- 270) False (- 415) (- 250))) 0)
       < xcor (player (move_obstacle 0 (scene Main (- 414) (- 270) False (- 415) (- 250)))) \<and>
   \<not> counted (obstacles (move_obstacle 0 (scene Main (- 414) (- 270) False (- 415) (- 250))) 0) \<and>
   score (scene Main (- 414) (- 270) False (- 415) (- 250)) = 0 \<and>
   handle_obstacle Main (move_obstacle 0 (scene Main (- 414) (- 270) False (- 415) (- 250))) 0 =
     Inr ((recycled_scene Main (- 415) (- 250))
       \<lparr>player := \<lparr> xcor = - 415, ycor = - 250, dy = 0, hitpoints = 0 \<rparr>\<rparr>) \<and>
   handle_obstacle Main2 (move_obstacle 0 (scene Main2 (- 414) (- 270) False (- 415) (- 250))) 0 =
     Inr ((recycled_scene Main2 (- 415) (- 250))
       \<lparr>player := \<lparr> xcor = - 415, ycor = - 250, dy = 0, hitpoints = 0 \<rparr>\<rparr>) \<and>
   score (recycled_scene Main (- 415) (- 250)) = 0 \<and>
   score (recycled_scene Main2 (- 415) (- 250)) = 0 \<and>
   0 \<in> set (waiting_obstacles (recycled_scene Main (- 415) (- 250))) \<and>
   0 \<in> set (waiting_obstacles (recycled_scene Main2 (- 415) (- 250)))"
  by (simp add: handle_defs move_obstacle_def obstacle_move_def check_collision_def
        obstacle_is_out_of_screen_def const_defs scene_defs fun_upd_idem)

text \<open>
  C4, amended: a resolution of an obstacle adds one dodge point exactly when the obstacle
  does not collide, is left of the player and not counted (and, in main2.py, is not past
  the off-screen boundary), and nothing otherwise; such a resolution sets the flag
  unless it recycles the obstacle; a counted obstacle earns nothing; recycling clears the
  flag. Hence between two recycles an obstacle earns at most one dodge point: while it
  stays out of the waiting pool, it has earned one point if its flag is set and none if
  not, and the resolution that ends the stay brings the total to at most one.
\<close>

theorem dodge_point_once:
  "(handle_obstacle v g k = Inr g' \<longrightarrow>
      score g' = score g + (if dodge_point v g k then 1 else 0) \<and>
      (dodge_point v g k \<and> k \<notin> set (waiting_obstacles g') \<longrightarrow> counted (obstacles g' k)) \<and>
      (counted (obstacles g k) \<longrightarrow> score g' = score g)) \<and>
   (reset_obstacle g k = Inr g' \<longrightarrow>
      \<not> counted (obstacles g' k) \<and> k \<in> set (waiting_obstacles g')) \<and>
   (lifetime v k g0 n g1 \<and> \<not> counted (obstacles g0 k) \<longrightarrow>
      n = (if counted (obstacles g1 k) then 1 else 0) \<and>
      (\<forall>g2. handle_obstacle v (move_obstacle k g1) k = Inr g2 \<longrightarrow>
         0 \<le> n + (score g2 - score g1) \<and> n + (score g2 - score g1) \<le> 1))"
proof (intro conjI impI allI)
  assume h: "handle_obstacle v g k = Inr g'"
  then show "score g' = score g + (if dodge_point v g k then 1 else 0)"
    by (rule handle_obstacle_score)
  {
    assume "dodge_point v g k \<and> k \<notin> set (waiting_obstacles g')"
    with h show "counted (obstacles g' k)"
      by (simp add: handle_obstacle_counted)
  }
  {
    assume "counted (obstacles g k)"
    with handle_obstacle_score [OF h] show "score g' = score g"
      by (simp add: dodge_point_def)
  }
next
  assume "reset_obstacle g k = Inr g'"
  then show "\<not> counted (obstacles g' k)"
    by (simp add: reset_obstacle_counted)
next
  assume "reset_obstacle g k = Inr g'"
  then show "k \<in> set (waiting_obstacles g')"
    by (simp add: reset_obstacle_counted)
next
  assume l: "lifetime v k g0 n g1 \<and> \<not> counted (obstacles g0 k)"
  then show n: "n = (if counted (obstacles g1 k) then 1 else 0)"
    using lifetime_counted [of v k g0 n g1] by blast
  fix g2
  assume h: "handle_obstacle v (move_obstacle k g1) k = Inr g2"
  have s: "score g2 = score g1 + (if dodge_point v (move_obstacle k g1) k then 1 else 0)"
    using handle_obstacle_score [OF h] by (simp add: move_obstacle_def)
  from n s show "0 \<le> n + (score g2 - score g1)"
    by (simp split: if_splits)
  from n s dodge_point_move [of v k g1] show "n + (score g2 - score g1) \<le> 1"
    by (auto split: if_splits)
qed

text \<open>
  Obstacle 0 at \<open>x = - 396\<close> passes the player, who is in the air at \<open>x = - 400\<close>: the tick
  moves it to \<open>- 402\<close> and awards the point; the next tick moves it to \<open>- 408\<close> and awards
  nothing.
\<close>

theorem dodge_point_once_witness:
  "handle_obstacle Main (move_obstacle 0 (scene Main (- 396) (- 270) False (- 400) (- 100))) 0 =
     Inr ((scene Main (- 402) (- 270) True (- 400) (- 100))\<lparr>score := 1\<rparr>) \<and>
   dodge_point Main (move_obstacle 0 (scene Main (- 396) (- 270) False (- 400) (- 100))) 0 \<and>
   score (scene Main (- 396) (- 270) False (- 400) (- 100)) = 0 \<and>
   lifetime Main 0 (scene Main (- 396) (- 270) False (- 400) (- 100)) 1
     ((scene Main (- 402) (- 270) True (- 400) (- 100))\<lparr>score := 1\<rparr>) \<and>
   handle_obstacle Main
     (move_obstacle 0 ((scene Main (- 402) (- 270) True (- 400) (- 100))\<lparr>score := 1\<rparr>)) 0 =
     Inr ((scene Main (- 408) (- 270) True (- 400) (- 100))\<lparr>score := 1\<rparr>)"
proof -
  let ?S = "scene Main (- 396) (- 270) False (- 400) (- 100)"
  let ?S' = "(scene Main (- 402) (- 270) True (- 400) (- 100))\<lparr>score := 1\<rparr>"
  let ?S'' = "(scene Main (- 408) (- 270) True (- 400) (- 100))\<lparr>score := 1\<rparr>"
  have h: "handle_obstacle Main (move_obstacle 0 ?S) 0 = Inr ?S'"
    by (simp add: handle_defs move_obstacle_def obstacle_move_def check_collision_def
          obstacle_is_out_of_screen_def const_defs scene_defs)
  have h': "handle_obstacle Main (move_obstacle 0 ?S') 0 = Inr ?S''"
    by (simp add: handle_defs move_obstacle_def obstacle_move_def check_collision_def
          obstacle_is_out_of_screen_def const_defs scene_defs)
  have d: "dodge_point Main (move_obstacle 0 ?S) 0"
    by (simp add: dodge_point_def move_obstacle_def obstacle_move_def check_collision_def
          obstacle_is_out_of_screen_def const_defs scene_defs)
  have z: "score ?S = 0" "\<not> counted (obstacles ?S 0)" "0 \<notin> set (waiting_obstacles ?S')"
    by (simp_all add: scene_defs)
  have "lifetime Main 0 ?S (0 + (score ?S' - score ?S)) ?S'"
    using lifetime.fresh h z(3) by (rule lifetime.resolve)
  then have l: "lifetime Main 0 ?S 1 ?S'"
    using z(1) by simp
  have "score ?S' = score (move_obstacle 0 ?S) + 1 \<and> counted (obstacles ?S' 0)"
    using dodge_point_once [of Main "move_obstacle 0 ?S" 0 ?S'] h d z(3) by simp
  moreover have "0 \<le> 1 + (score ?S'' - score ?S') \<and> 1 + (score ?S'' - score ?S') \<le> 1"
    using dodge_point_once [of Main _ 0 _ ?S 1 ?S'] l z(2) h' by blast
  ultimately show ?thesis
    using h h' d z(1) l by simp
qed

section \<open>The object pools\<close>

text \<open>
  The constructor creates ten obstacles and ten pickups, with identities \<open>0\<close> to \<open>9\<close>. Each
  kind's two lists together hold every identity once.
\<close>

definition pools_ok :: "game \<Rightarrow> bool" where
  "pools_ok g \<longleftrightarrow>
     distinct (waiting_obstacles g @ in_play_obstacles g) \<and>
     set (waiting_obstacles g @ in_play_obstacles g) = {0..<10} \<and>
     distinct (waiting_pickups g @ in_play_pickups g) \<and>
     set (waiting_pickups g @ in_play_pickups g) = {0..<10}"

lemma pools_ok_cong:
  assumes "pools_ok g"
    and "waiting_obstacles g' = waiting_obstacles g" and "in_play_obstacles g' = in_play_obstacles g"
    and "waiting_pickups g' = waiting_pickups g" and "in_play_pickups g' = in_play_pickups g"
  shows "pools_ok g'"
  using assms by (simp add: pools_ok_def)

lemma reset_obstacle_pools:
  assumes "reset_obstacle g k = Inr g'" and "pools_ok g"
  shows "pools_ok g'"
  using assms
  by (auto simp: reset_obstacle_def pools_ok_def split: if_splits dest: notin_set_remove1)

lemma reset_pickup_pools:
  assumes "reset_pickup r g k = Inr g'" and "pools_ok g"
  shows "pools_ok g'"
  using assms
  by (auto simp: reset_pickup_def pools_ok_def split: if_splits dest: notin_set_remove1)

lemma handle_obstacle_pools:
  assumes "handle_obstacle v (move_obstacle k g) k = Inr g'" and "pools_ok g"
  shows "pools_ok g'"
proof -
  have m: "pools_ok (move_obstacle k g)"
    using assms(2) by (rule pools_ok_cong) (simp_all add: move_obstacle_def)
  have h: "pools_ok (move_obstacle k g\<lparr>player := p\<rparr>)" for p
    using m by (rule pools_ok_cong) simp_all
  have c: "pools_ok (move_obstacle k g\<lparr>score := s, obstacles := f\<rparr>)" for s f
    using m by (rule pools_ok_cong) simp_all
  from assms(1) m h c show ?thesis
    by (cases v)
       (auto simp: handle_obstacle_main_def handle_obstacle_main2_def
             split: if_splits sum.splits dest: reset_obstacle_pools)
qed

lemma handle_pickup_pools:
  assumes "handle_pickup v r (move_pickup s w k g) k = Inr g'" and "pools_ok g"
  shows "pools_ok g'"
proof -
  have m: "pools_ok (move_pickup s w k g)"
    using assms(2) by (rule pools_ok_cong) (simp_all add: move_pickup_def)
  have h: "pools_ok (move_pickup s w k g\<lparr>score := c\<rparr>)" for c
    using m by (rule pools_ok_cong) simp_all
  from assms(1) m h show ?thesis
    by (cases v)
       (auto simp: handle_pickup_main_def handle_pickup_main2_def
             split: if_splits sum.splits dest: reset_pickup_pools)
qed

lemma obstacle_loop_pools:
  assumes "obstacle_loop v i g = Inr g'" and "pools_ok g"
  shows "pools_ok g'"
  using assms
proof (rule obstacle_loop_induct [where P = pools_ok])
  fix g1 k g2
  assume "pools_ok g1" and "handle_obstacle v (move_obstacle k g1) k = Inr g2"
  then show "pools_ok g2" by (simp add: handle_obstacle_pools)
qed

lemma pickup_loop_pools:
  assumes "pickup_loop v inp i g = Inr g'" and "pools_ok g"
  shows "pools_ok g'"
  using assms
proof (rule pickup_loop_induct [where P = pools_ok])
  fix g1 k r s w g2
  assume "pools_ok g1" and "handle_pickup v r (move_pickup s w k g1) k = Inr g2"
  then show "pools_ok g2" by (simp add: handle_pickup_pools)
qed

lemma spawn_obstacle_pools:
  assumes "spawn_obstacle v inp g = Inr g'" and "pools_ok g"
  shows "pools_ok g'"
  using assms
  by (auto simp: spawn_obstacle_def pools_ok_def split: if_splits list.splits variant.splits)

lemma spawn_pickup_pools:
  assumes "spawn_pickup v inp g = Inr g'" and "pools_ok g"
  shows "pools_ok g'"
  using assms
  by (auto simp: spawn_pickup_def pools_ok_def split: if_splits list.splits variant.splits)

lemma game_loop_pools:
  assumes "game_loop v inp g = Inr g'" and "pools_ok g"
  shows "pools_ok g'"
proof (cases "game_over g")
  case True
  with assms(1) have "g' = g\<lparr>bound_keys := {}, game_over_shown := game_over_shown g + 1\<rparr>"
    by (simp add: game_loop_over)
  with assms(2) show ?thesis by (simp add: pools_ok_def)
next
  case False
  then obtain g1 g2 g3 g4 where s: "tick_stages v inp g g1 g2 g3 g4"
    using game_loop_stages by blast
  have "pools_ok (g\<lparr>obstacle_timer := obstacle_timer g + 1, pickup_timer := pickup_timer g + 1\<rparr>)"
    using assms(2) by (simp add: pools_ok_def)
  with s have "pools_ok g1" by (auto simp: tick_stages_def dest: spawn_obstacle_pools)
  with s have "pools_ok g2" by (auto simp: tick_stages_def dest: spawn_pickup_pools)
  then have "pools_ok (g2\<lparr>bound_keys := bound_keys g2 \<union> {KeyA, KeyD}, player := fall (player g2)\<rparr>)"
    by (simp add: pools_ok_def)
  with s have "pools_ok g3" by (auto simp: tick_stages_def dest: obstacle_loop_pools)
  with s have "pools_ok g4" by (auto simp: tick_stages_def dest: pickup_loop_pools)
  moreover from s assms(1) have "g' = g4\<lparr>timer_pending := True\<rparr>"
    by (simp add: tick_stages_def)
  ultimately show ?thesis by (simp add: pools_ok_def)
qed

lemma reachable_pools:
  assumes "reachable v g"
  shows "pools_ok g"
  using assms
proof (rule reachable_invariant)
  fix ys show "pools_ok (init v ys)"
    by (simp add: pools_ok_def init_def)
next
  fix g k assume "pools_ok g"
  then show "pools_ok (key_event v k g)"
    by (simp add: pools_ok_def key_event_def)
next
  fix g b inp g'
  assume "pools_ok g" and "game_loop v inp (g\<lparr>timer_pending := b\<rparr>) = Inr g'"
  then show "pools_ok g'"
    using game_loop_pools [of v inp "g\<lparr>timer_pending := b\<rparr>" g']
    by (simp add: pools_ok_def)
qed

lemma pools_ok_length:
  assumes "pools_ok g"
  shows "length (waiting_obstacles g) + length (in_play_obstacles g) = 10"
    and "length (waiting_pickups g) + length (in_play_pickups g) = 10"
proof -
  from assms have "distinct (waiting_obstacles g @ in_play_obstacles g)"
    and "set (waiting_obstacles g @ in_play_obstacles g) = {0..<10}"
    by (simp_all add: pools_ok_def)
  then have "length (waiting_obstacles g @ in_play_obstacles g) = card {0..<10::nat}"
    using distinct_card by metis
  then show "length (waiting_obstacles g) + length (in_play_obstacles g) = 10" by simp
  from assms have "distinct (waiting_pickups g @ in_play_pickups g)"
    and "set (waiting_pickups g @ in_play_pickups g) = {0..<10}"
    by (simp_all add: pools_ok_def)
  then have "length (waiting_pickups g @ in_play_pickups g) = card {0..<10::nat}"
    using distinct_card by metis
  then show "length (waiting_pickups g) + length (in_play_pickups g) = 10" by simp
qed


text \<open>
  A session in which nothing happens for a while: in \<open>idle v n\<close> the draws have failed for
  \<open>n\<close> ticks after the first. In \<open>admitted\<close> the obstacle draw of main.py has then succeeded
  on the tick that brings the timer to 30, and obstacle 0 has made its first move.
\<close>

definition idle :: "variant \<Rightarrow> nat \<Rightarrow> game" where
  "idle v n = (first_state v)\<lparr>obstacle_timer := 1 + int n, pickup_timer := 16 + int n\<rparr>"

definition eager :: tick_input where
  "eager = quiet\<lparr>obstacle_draw := 0.3\<rparr>"

definition admitted :: game where
  "admitted = (scene Main 1254 (- 270) False (- 400) (- 250))
     \<lparr>obstacle_timer := 0, pickup_timer := 45\<rparr>"

lemma session_step_idle: "session_step v quiet (idle v n) = Inr (idle v (Suc n))"
  by (cases v)
     (auto simp: session_step_def game_loop_def game_over_def init_def quiet_def first_state_def
        idle_def spawn_obstacle_def spawn_pickup_def obstacle_loop_stop pickup_loop_stop fall_def
        const_defs)

lemma reachable_idle: "reachable v (idle v n)"
proof (induction n)
  case 0
  have "idle v 0 = first_state v"
    by (simp add: idle_def first_state_def init_def)
  then show ?case by (simp add: reachable_first_state)
next
  case (Suc n)
  then show ?case using session_step_idle by (rule reachable.step)
qed

lemma session_step_admitted: "session_step Main eager (idle Main 28) = Inr admitted"
  by (auto simp: session_step_def game_loop_def game_over_def eager_def admitted_def idle_def
        scene_defs spawn_obstacle_def spawn_pickup_def obstacle_loop_step obstacle_loop_stop
        pickup_loop_stop fall_def handle_defs move_obstacle_def obstacle_move_def
        check_collision_def obstacle_is_out_of_screen_def const_defs upt_conv_Cons)

lemma reachable_admitted: "reachable Main admitted"
  using reachable_idle session_step_admitted by (rule reachable.step)

text \<open>
  C2. In every state of a session the waiting and the in-play list of each kind have no
  element in common, each of the ten obstacles and of the ten pickups created by the
  constructor is in exactly one of the two lists of its kind, and in it once, and the
  lengths of the two lists add up to ten.
\<close>

theorem pool_conservation:
  assumes "reachable v g"
  shows "set (waiting_obstacles g) \<inter> set (in_play_obstacles g) = {} \<and>
    set (waiting_pickups g) \<inter> set (in_play_pickups g) = {} \<and>
    set (waiting_obstacles g) \<union> set (in_play_obstacles g) = {0..<10} \<and>
    set (waiting_pickups g) \<union> set (in_play_pickups g) = {0..<10} \<and>
    (\<forall>k<10. (k \<in> set (waiting_obstacles g)) \<noteq> (k \<in> set (in_play_obstacles g))) \<and>
    (\<forall>k<10. (k \<in> set (waiting_pickups g)) \<noteq> (k \<in> set (in_play_pickups g))) \<and>
    distinct (waiting_obstacles g) \<and> distinct (in_play_obstacles g) \<and>
    distinct (waiting_pickups g) \<and> distinct (in_play_pickups g) \<and>
    length (waiting_obstacles g) + length (in_play_obstacles g) = 10 \<and>
    length (waiting_pickups g) + length (in_play_pickups g) = 10"
proof -
  from assms have p: "pools_ok g" by (rule reachable_pools)
  then have o: "distinct (waiting_obstacles g @ in_play_obstacles g)"
    "set (waiting_obstacles g) \<union> set (in_play_obstacles g) = {0..<10}"
    and q: "distinct (waiting_pickups g @ in_play_pickups g)"
    "set (waiting_pickups g) \<union> set (in_play_pickups g) = {0..<10}"
    by (simp_all add: pools_ok_def)
  from o(1) have o1: "set (waiting_obstacles g) \<inter> set (in_play_obstacles g) = {}"
    "distinct (waiting_obstacles g)" "distinct (in_play_obstacles g)"
    by simp_all
  from q(1) have q1: "set (waiting_pickups g) \<inter> set (in_play_pickups g) = {}"
    "distinct (waiting_pickups g)" "distinct (in_play_pickups g)"
    by simp_all
  from o(2) o1(1)
  have o2: "\<forall>k<10. (k \<in> set (waiting_obstacles g)) \<noteq> (k \<in> set (in_play_obstacles g))"
    by (metis Un_iff atLeastLessThan_iff disjoint_iff zero_le)
  from q(2) q1(1)
  have q2: "\<forall>k<10. (k \<in> set (waiting_pickups g)) \<noteq> (k \<in> set (in_play_pickups g))"
    by (metis Un_iff atLeastLessThan_iff disjoint_iff zero_le)
  from o o1 o2 q q1 q2 pools_ok_length [OF p] show ?thesis
    by blast
qed

text \<open>The state of main.py after the first obstacle was admitted.\<close>

theorem pool_conservation_witness:
  "reachable Main admitted \<and>
   waiting_obstacles admitted = [1, 2, 3, 4, 5, 6, 7, 8, 9] \<and>
   in_play_obstacles admitted = [0] \<and>
   set (waiting_obstacles admitted) \<inter> set (in_play_obstacles admitted) = {} \<and>
   set (waiting_obstacles admitted) \<union> set (in_play_obstacles admitted) = {0..<10} \<and>
   length (waiting_obstacles admitted) + length (in_play_obstacles admitted) = 10 \<and>
   length (waiting_pickups admitted) + length (in_play_pickups admitted) = 10"
proof -
  have "waiting_obstacles admitted = [1, 2, 3, 4, 5, 6, 7, 8, 9] \<and>
      in_play_obstacles admitted = [0]"
    by (simp add: admitted_def scene_defs upt_conv_Cons)
  with pool_conservation [OF reachable_admitted] reachable_admitted show ?thesis
    by blast
qed

section \<open>Score, hitpoints and the end of the game\<close>

text \<open>
  A session is running while a call of \<^verbatim>\<open>game_loop\<close> is scheduled. The call that finds the
  game over schedules no other.
\<close>

datatype phase = Running | GameOver

definition phase :: "game \<Rightarrow> phase" where
  "phase g = (if timer_pending g then Running else GameOver)"

definition progress :: "game \<Rightarrow> game \<Rightarrow> bool" where
  "progress g g' \<longleftrightarrow>
     score g \<le> score g' \<and> hitpoints (player g') \<le> hitpoints (player g)"

lemma progress_refl: "progress g g"
  by (simp add: progress_def)

lemma progress_trans: "progress g g1 \<Longrightarrow> progress g1 g2 \<Longrightarrow> progress g g2"
  by (auto simp: progress_def)

lemma handle_obstacle_progress:
  "handle_obstacle v (move_obstacle k g) k = Inr g' \<Longrightarrow> progress g g'"
  by (cases v)
     (auto simp: handle_defs move_obstacle_def progress_def split: if_splits sum.splits)

lemma handle_pickup_progress:
  "handle_pickup v r (move_pickup s w k g) k = Inr g' \<Longrightarrow> progress g g'"
  by (cases v)
     (auto simp: handle_defs move_pickup_def progress_def split: if_splits sum.splits)

lemma obstacle_loop_progress:
  assumes "obstacle_loop v i g = Inr g'"
  shows "progress g g'"
proof (rule obstacle_loop_induct [OF assms, where P = "progress g"])
  show "progress g g" by (rule progress_refl)
next
  fix g1 k g2
  assume "progress g g1" and "handle_obstacle v (move_obstacle k g1) k = Inr g2"
  then show "progress g g2"
    using handle_obstacle_progress progress_trans by blast
qed

lemma pickup_loop_progress:
  assumes "pickup_loop v inp i g = Inr g'"
  shows "progress g g'"
proof (rule pickup_loop_induct [OF assms, where P = "progress g"])
  show "progress g g" by (rule progress_refl)
next
  fix g1 k r s w g2
  assume "progress g g1" and "handle_pickup v r (move_pickup s w k g1) k = Inr g2"
  then show "progress g g2"
    using handle_pickup_progress progress_trans by blast
qed

lemma spawn_obstacle_progress: "spawn_obstacle v inp g = Inr g' \<Longrightarrow> progress g g'"
  by (auto simp: spawn_obstacle_def progress_def split: if_splits list.splits variant.splits)

lemma spawn_pickup_progress: "spawn_pickup v inp g = Inr g' \<Longrightarrow> progress g g'"
  by (auto simp: spawn_pickup_def progress_def split: if_splits list.splits variant.splits)

lemma fall_hitpoints: "hitpoints (fall p) = hitpoints p"
  by (simp add: fall_def Let_def)

lemma handler_hitpoints: "hitpoints (handler v k p) = hitpoints p"
  by (cases v; cases k) (simp_all add: jump_def)

lemma game_loop_progress:
  assumes "game_loop v inp g = Inr g'"
  shows "progress g g'"
proof (cases "game_over g")
  case True
  with assms show ?thesis by (auto simp: game_loop_over progress_def)
next
  case False
  then obtain g1 g2 g3 g4 where s: "tick_stages v inp g g1 g2 g3 g4"
    using game_loop_stages by blast
  let ?g0 = "g\<lparr>obstacle_timer := obstacle_timer g + 1, pickup_timer := pickup_timer g + 1\<rparr>"
  let ?g2 = "g2\<lparr>bound_keys := bound_keys g2 \<union> {KeyA, KeyD}, player := fall (player g2)\<rparr>"
  have "progress g ?g0" by (simp add: progress_def)
  moreover from s have "progress ?g0 g1" by (auto simp: tick_stages_def intro: spawn_obstacle_progress)
  moreover from s have "progress g1 g2" by (auto simp: tick_stages_def intro: spawn_pickup_progress)
  moreover have "progress g2 ?g2" by (simp add: progress_def fall_hitpoints)
  moreover from s have "progress ?g2 g3" by (auto simp: tick_stages_def intro: obstacle_loop_progress)
  moreover from s have "progress g3 g4" by (auto simp: tick_stages_def intro: pickup_loop_progress)
  moreover have "progress g4 (g4\<lparr>timer_pending := True\<rparr>)" by (simp add: progress_def)
  ultimately have "progress g (g4\<lparr>timer_pending := True\<rparr>)"
    by (meson progress_trans)
  with s assms show ?thesis by (simp add: tick_stages_def)
qed

lemma game_loop_pending:
  assumes "game_loop v inp g = Inr g'"
  shows "timer_pending g' \<longleftrightarrow> timer_pending g \<or> \<not> game_over g"
proof (cases "game_over g")
  case True
  with assms show ?thesis by (auto simp: game_loop_over)
next
  case False
  then obtain g1 g2 g3 g4 where s: "tick_stages v inp g g1 g2 g3 g4"
    using game_loop_stages by blast
  with assms False show ?thesis by (auto simp: tick_stages_def)
qed

lemma key_event_frame:
  "score (key_event v k g) = score g \<and>
   hitpoints (player (key_event v k g)) = hitpoints (player g) \<and>
   timer_pending (key_event v k g) = timer_pending g \<and>
   bound_keys (key_event v k g) = bound_keys g \<and>
   game_over_shown (key_event v k g) = game_over_shown g"
  by (simp add: key_event_def handler_hitpoints)

lemma fold_key_event_frame:
  "score (fold (key_event v) ks g) = score g \<and>
   hitpoints (player (fold (key_event v) ks g)) = hitpoints (player g) \<and>
   timer_pending (fold (key_event v) ks g) = timer_pending g \<and>
   bound_keys (fold (key_event v) ks g) = bound_keys g \<and>
   game_over_shown (fold (key_event v) ks g) = game_over_shown g"
proof (induction ks arbitrary: g)
  case Nil
  show ?case by simp
next
  case (Cons k ks)
  from Cons.IH [of "key_event v k g"] key_event_frame [of v k g] show ?case by simp
qed

lemma session_step_progress:
  assumes "session_step v inp g = Inr g'"
  shows "progress g g'"
proof -
  let ?g1 = "fold (key_event v) (keys inp) g"
  have k: "progress g ?g1"
    using fold_key_event_frame [of v "keys inp" g] by (simp add: progress_def)
  show ?thesis
  proof (cases "timer_pending ?g1")
    case True
    with assms have "game_loop v inp (?g1\<lparr>timer_pending := False\<rparr>) = Inr g'"
      by (simp add: session_step_def Let_def)
    then have "progress (?g1\<lparr>timer_pending := False\<rparr>) g'"
      by (rule game_loop_progress)
    then have "progress ?g1 g'" by (simp add: progress_def)
    with k show ?thesis by (rule progress_trans)
  next
    case False
    with assms k show ?thesis by (simp add: session_step_def Let_def)
  qed
qed

lemma session_step_phase:
  assumes "session_step v inp g = Inr g'"
  shows "phase g' = (if phase g = Running \<and> 0 < hitpoints (player g) then Running else GameOver)"
proof -
  let ?g1 = "fold (key_event v) (keys inp) g"
  note k = fold_key_event_frame [of v "keys inp" g]
  show ?thesis
  proof (cases "timer_pending g")
    case True
    with assms k have "game_loop v inp (?g1\<lparr>timer_pending := False\<rparr>) = Inr g'"
      by (simp add: session_step_def Let_def)
    from game_loop_pending [OF this] k True show ?thesis
      by (auto simp: phase_def game_over_def)
  next
    case False
    with assms k show ?thesis by (auto simp: session_step_def Let_def phase_def)
  qed
qed

lemma run_progress:
  assumes "run v inps g = Inr g'"
  shows "progress g g'"
  using assms
proof (induction inps arbitrary: g)
  case Nil
  then show ?case by (simp add: progress_refl)
next
  case (Cons inp inps)
  then obtain g1 where s: "session_step v inp g = Inr g1" and r: "run v inps g1 = Inr g'"
    by (auto split: sum.splits)
  from s have "progress g g1" by (rule session_step_progress)
  moreover from r have "progress g1 g'" by (rule Cons.IH)
  ultimately show ?case by (rule progress_trans)
qed

lemma run_phase:
  assumes "run v inps g = Inr g'" and "phase g = GameOver"
  shows "phase g' = GameOver"
  using assms
proof (induction inps arbitrary: g)
  case Nil
  then show ?case by simp
next
  case (Cons inp inps)
  then obtain g1 where s: "session_step v inp g = Inr g1" and r: "run v inps g1 = Inr g'"
    by (auto split: sum.splits)
  from session_step_phase [OF s] Cons.prems(2) have "phase g1 = GameOver" by simp
  with r show ?case by (rule Cons.IH)
qed


text \<open>
  A last tick of main.py: in \<open>struck\<close> obstacle 0 is one move away from the player, who
  stands on the ground with one hitpoint. The tick takes the hitpoint (\<open>struck_tick\<close>),
  and the call of \<^verbatim>\<open>game_loop\<close> after it shows the game-over screen (\<open>struck_over\<close>).
\<close>

definition struck :: game where
  "struck = scene Main (- 414) (- 270) False (- 415) (- 250)"

definition struck_tick :: game where
  "struck_tick = (recycled_scene Main (- 415) (- 250))
     \<lparr> player := \<lparr> xcor = - 415, ycor = - 250, dy = 0, hitpoints = 0 \<rparr>,
       obstacle_timer := 2, pickup_timer := 17 \<rparr>"

definition struck_over :: game where
  "struck_over = struck_tick\<lparr>bound_keys := {}, timer_pending := False, game_over_shown := 1\<rparr>"

lemmas struck_defs = struck_def struck_tick_def struck_over_def

lemma session_step_struck: "session_step Main quiet struck = Inr struck_tick"
  by (auto simp: session_step_def game_loop_def game_over_def struck_defs
        scene_defs spawn_obstacle_def spawn_pickup_def obstacle_loop_step obstacle_loop_stop
        pickup_loop_stop fall_def handle_defs move_obstacle_def obstacle_move_def
        check_collision_def obstacle_is_out_of_screen_def const_defs upt_conv_Cons)

lemma session_step_struck_tick: "session_step Main quiet struck_tick = Inr struck_over"
  by (simp add: session_step_def game_loop_def game_over_def struck_defs scene_defs)

lemma session_step_struck_over: "session_step Main inp struck_over = Inr struck_over"
proof -
  have "fold (key_event Main) ks struck_over = struck_over" for ks
    by (induction ks) (simp_all add: key_event_def struck_defs)
  then show ?thesis
    by (simp add: session_step_def) (simp add: struck_defs)
qed

text \<open>
  C6. Over any run of a session the score does not decrease and the hitpoints do not
  increase; a step of a running session ends the game exactly when the hitpoints are at
  most 0 at the scheduled call of \<^verbatim>\<open>game_loop\<close>, which then takes its game-over branch
  and otherwise schedules the next call; once the game is over it stays over: no run
  brings the session back to running, or the hitpoints back above 0.
\<close>

theorem score_hitpoints_monotone:
  "(run v inps g = Inr g' \<longrightarrow>
      score g \<le> score g' \<and> hitpoints (player g') \<le> hitpoints (player g) \<and>
      (game_over g \<longrightarrow> game_over g') \<and>
      (phase g = GameOver \<longrightarrow> phase g' = GameOver)) \<and>
   (session_step v inp g = Inr ga \<and> phase g = Running \<longrightarrow>
      (phase ga = GameOver \<longleftrightarrow> hitpoints (player g) \<le> 0)) \<and>
   (game_loop v inp g = Inr gb \<longrightarrow>
      (if hitpoints (player g) \<le> 0
       then gb = g\<lparr>bound_keys := {}, game_over_shown := game_over_shown g + 1\<rparr>
       else timer_pending gb \<and> game_over_shown gb = game_over_shown g))"
proof (intro conjI impI)
  assume r: "run v inps g = Inr g'"
  then have p: "progress g g'" by (rule run_progress)
  then show "score g \<le> score g'" and "hitpoints (player g') \<le> hitpoints (player g)"
    by (simp_all add: progress_def)
  {
    assume "game_over g"
    with p show "game_over g'" by (simp add: progress_def game_over_def)
  }
  {
    assume "phase g = GameOver"
    with r show "phase g' = GameOver" by (rule run_phase)
  }
next
  assume "session_step v inp g = Inr ga \<and> phase g = Running"
  then show "phase ga = GameOver \<longleftrightarrow> hitpoints (player g) \<le> 0"
    using session_step_phase [of v inp g ga] by auto
next
  assume l: "game_loop v inp g = Inr gb"
  show "if hitpoints (player g) \<le> 0
     then gb = g\<lparr>bound_keys := {}, game_over_shown := game_over_shown g + 1\<rparr>
     else timer_pending gb \<and> game_over_shown gb = game_over_shown g"
  proof (cases "game_over g")
    case True
    with l show ?thesis by (auto simp: game_loop_over game_over_def)
  next
    case False
    then obtain h1 h2 h3 h4 where s: "tick_stages v inp g h1 h2 h3 h4"
      using game_loop_stages by blast
    then have "game_over_shown h1 = game_over_shown g"
      by (auto simp: tick_stages_def spawn_obstacle_def split: if_splits list.splits variant.splits)
    moreover from s have "game_over_shown h2 = game_over_shown h1"
      by (auto simp: tick_stages_def spawn_pickup_def split: if_splits list.splits variant.splits)
    moreover from s have "game_over_shown h3 = game_over_shown h2"
      using obstacle_loop_frame [of v 0 _ h3] by (auto simp: tick_stages_def obstacle_frame_def)
    moreover from s have "game_over_shown h4 = game_over_shown h3"
      using pickup_loop_frame [of v inp 0 h3 h4] by (auto simp: tick_stages_def pickup_frame_def)
    moreover from s l have "gb = h4\<lparr>timer_pending := True\<rparr>"
      by (simp add: tick_stages_def)
    ultimately show ?thesis using False by (simp add: game_over_def)
  qed
qed

text \<open>The last tick of \<open>struck\<close> and the call after it, followed by one more step.\<close>

theorem score_hitpoints_monotone_witness:
  "run Main [quiet, quiet, quiet] struck = Inr struck_over \<and>
   score struck = 0 \<and> score struck_over = 0 \<and>
   hitpoints (player struck) = 1 \<and> hitpoints (player struck_over) = 0 \<and>
   session_step Main quiet struck = Inr struck_tick \<and>
   phase struck = Running \<and> phase struck_tick = Running \<and>
   session_step Main quiet struck_tick = Inr struck_over \<and>
   hitpoints (player struck_tick) = 0 \<and> phase struck_over = GameOver \<and>
   run Main [quiet] struck_over = Inr struck_over"
proof -
  have r: "run Main [quiet, quiet, quiet] struck = Inr struck_over"
    "run Main [quiet] struck_over = Inr struck_over"
    by (simp_all add: session_step_struck session_step_struck_tick session_step_struck_over)
  have p: "phase struck = Running" "phase struck_tick = Running"
    by (simp_all add: phase_def struck_defs scene_defs)
  have "score struck \<le> score struck_over \<and>
      hitpoints (player struck_over) \<le> hitpoints (player struck)"
    using score_hitpoints_monotone
        [where v = Main and inps = "[quiet, quiet, quiet]" and g = struck and g' = struck_over] r(1)
    by blast
  moreover have "phase struck_tick \<noteq> GameOver"
    using score_hitpoints_monotone [where v = Main and inp = quiet and g = struck and ga = struck_tick]
      session_step_struck p(1)
    by (simp add: struck_defs scene_defs)
  moreover have "phase struck_over = GameOver"
    using score_hitpoints_monotone
        [where v = Main and inp = quiet and g = struck_tick and ga = struck_over]
      session_step_struck_tick p(2)
    by (simp add: struck_defs scene_defs)
  moreover have "score struck = 0" "score struck_over = 0" "hitpoints (player struck) = 1"
    "hitpoints (player struck_over) = 0" "hitpoints (player struck_tick) = 0"
    by (simp_all add: struck_defs scene_defs)
  ultimately show ?thesis
    using r p session_step_struck session_step_struck_tick by simp
qed

section \<open>The spawn timers\<close>

text \<open>
  The three tests that precede the draw in each spawn block, as they come out on the
  tick that starts in \<open>g\<close>, which increments the timers first; and the body of each
  block: \<^verbatim>\<open>pop(0)\<close> from the waiting list, \<^verbatim>\<open>append\<close> to the in-play list, timer to 0.
\<close>

definition obstacle_due :: "game \<Rightarrow> bool" where
  "obstacle_due g \<longleftrightarrow>
     30 \<le> obstacle_timer g + 1 \<and> length (in_play_obstacles g) < 10 \<and>
     0 < length (waiting_obstacles g)"

definition pickup_due :: "game \<Rightarrow> bool" where
  "pickup_due g \<longleftrightarrow>
     12 \<le> pickup_timer g + 1 \<and> length (in_play_pickups g) < 1 \<and>
     0 < length (waiting_pickups g)"

definition admit_obstacle :: "game \<Rightarrow> game" where
  "admit_obstacle g =
     g\<lparr> waiting_obstacles := tl (waiting_obstacles g),
        in_play_obstacles := in_play_obstacles g @ [hd (waiting_obstacles g)],
        obstacle_timer := 0 \<rparr>"

definition admit_pickup :: "game \<Rightarrow> game" where
  "admit_pickup g =
     g\<lparr> waiting_pickups := tl (waiting_pickups g),
        in_play_pickups := in_play_pickups g @ [hd (waiting_pickups g)],
        pickup_timer := 0 \<rparr>"

definition tick_timers :: "game \<Rightarrow> game" where
  "tick_timers g =
     g\<lparr>obstacle_timer := obstacle_timer g + 1, pickup_timer := pickup_timer g + 1\<rparr>"

lemma spawn_obstacle_admit:
  "spawn_obstacle v inp (tick_timers g) =
     Inr (if obstacle_due g \<and> obstacle_draw inp \<le> 0.5
          then admit_obstacle (tick_timers g) else tick_timers g)"
  by (cases "waiting_obstacles g")
     (simp_all add: spawn_obstacle_def obstacle_due_def admit_obstacle_def tick_timers_def)

lemma spawn_pickup_admit:
  "spawn_pickup v inp g =
     Inr (if 12 \<le> pickup_timer g \<and> length (in_play_pickups g) < 1 \<and>
             0 < length (waiting_pickups g) \<and> pickup_draw inp < 0.2
          then admit_pickup g else g)"
  by (cases "waiting_pickups g")
     (simp_all add: spawn_pickup_def admit_pickup_def)

text \<open>The loops only ever shorten an in-play list and lengthen a waiting list.\<close>

definition pools_shift :: "game \<Rightarrow> game \<Rightarrow> bool" where
  "pools_shift g g' \<longleftrightarrow>
     length (in_play_obstacles g') \<le> length (in_play_obstacles g) \<and>
     length (waiting_obstacles g) \<le> length (waiting_obstacles g') \<and>
     length (in_play_pickups g') \<le> length (in_play_pickups g) \<and>
     length (waiting_pickups g) \<le> length (waiting_pickups g')"

lemma pools_shift_refl: "pools_shift g g"
  by (simp add: pools_shift_def)

lemma pools_shift_trans: "pools_shift g g1 \<Longrightarrow> pools_shift g1 g2 \<Longrightarrow> pools_shift g g2"
  by (auto simp: pools_shift_def)

lemma handle_obstacle_shift:
  "handle_obstacle v (move_obstacle k g) k = Inr g' \<Longrightarrow> pools_shift g g'"
  by (cases v)
     (auto simp: handle_defs move_obstacle_def pools_shift_def length_remove1
           split: if_splits sum.splits)

lemma handle_pickup_shift:
  "handle_pickup v r (move_pickup s w k g) k = Inr g' \<Longrightarrow> pools_shift g g'"
  by (cases v)
     (auto simp: handle_defs move_pickup_def pools_shift_def length_remove1
           split: if_splits sum.splits)

lemma obstacle_loop_shift:
  assumes "obstacle_loop v i g = Inr g'"
  shows "pools_shift g g'"
proof (rule obstacle_loop_induct [OF assms, where P = "pools_shift g"])
  show "pools_shift g g" by (rule pools_shift_refl)
next
  fix g1 k g2
  assume "pools_shift g g1" and "handle_obstacle v (move_obstacle k g1) k = Inr g2"
  then show "pools_shift g g2"
    using handle_obstacle_shift pools_shift_trans by blast
qed

lemma pickup_loop_shift:
  assumes "pickup_loop v inp i g = Inr g'"
  shows "pools_shift g g'"
proof (rule pickup_loop_induct [OF assms, where P = "pools_shift g"])
  show "pools_shift g g" by (rule pools_shift_refl)
next
  fix g1 k r s w g2
  assume "pools_shift g g1" and "handle_pickup v r (move_pickup s w k g1) k = Inr g2"
  then show "pools_shift g g2"
    using handle_pickup_shift pools_shift_trans by blast
qed

text \<open>A running tick, with the two spawn blocks written out.\<close>

definition spawned :: "tick_input \<Rightarrow> game \<Rightarrow> game" where
  "spawned inp g =
     (let g1 = (if obstacle_due g \<and> obstacle_draw inp \<le> 0.5
                then admit_obstacle (tick_timers g) else tick_timers g)
      in if pickup_due g \<and> pickup_draw inp < 0.2 then admit_pickup g1 else g1)"

lemma game_loop_spawned:
  assumes "\<not> game_over g" and "game_loop v inp g = Inr g'"
  shows "\<exists>g3 g4.
    obstacle_loop v 0 ((spawned inp g)
      \<lparr>bound_keys := bound_keys g \<union> {KeyA, KeyD}, player := fall (player g)\<rparr>) = Inr g3 \<and>
    pickup_loop v inp 0 g3 = Inr g4 \<and> g' = g4\<lparr>timer_pending := True\<rparr>"
proof -
  from assms(1) obtain g1 g2 g3 g4 where s: "tick_stages v inp g g1 g2 g3 g4"
    using game_loop_stages by blast
  let ?g1 = "if obstacle_due g \<and> obstacle_draw inp \<le> 0.5
    then admit_obstacle (tick_timers g) else tick_timers g"
  from s have "spawn_obstacle v inp (tick_timers g) = Inr g1"
    by (simp add: tick_stages_def tick_timers_def)
  then have 1: "g1 = ?g1" by (simp add: spawn_obstacle_admit)
  have d: "12 \<le> pickup_timer g1 \<and> length (in_play_pickups g1) < 1 \<and>
      0 < length (waiting_pickups g1) \<longleftrightarrow> pickup_due g"
    unfolding 1 by (simp add: pickup_due_def admit_obstacle_def tick_timers_def)
  from s have "spawn_pickup v inp g1 = Inr g2" by (simp add: tick_stages_def)
  then have "g2 = (if (12 \<le> pickup_timer g1 \<and> length (in_play_pickups g1) < 1 \<and>
      0 < length (waiting_pickups g1)) \<and> pickup_draw inp < 0.2 then admit_pickup g1 else g1)"
    by (simp add: spawn_pickup_admit)
  then have 2: "g2 = spawned inp g"
    unfolding d by (simp add: spawned_def 1 Let_def)
  have k: "bound_keys (spawned inp g) = bound_keys g" "player (spawned inp g) = player g"
    by (simp_all add: spawned_def admit_obstacle_def admit_pickup_def tick_timers_def Let_def)
  from s assms(2) have "obstacle_loop v 0 ((spawned inp g)
      \<lparr>bound_keys := bound_keys g \<union> {KeyA, KeyD}, player := fall (player g)\<rparr>) = Inr g3"
    "pickup_loop v inp 0 g3 = Inr g4" "g' = g4\<lparr>timer_pending := True\<rparr>"
    by (simp_all add: tick_stages_def 2 [symmetric] k [unfolded 2 [symmetric]])
  then show ?thesis by blast
qed

lemma game_loop_timers:
  assumes "\<not> game_over g" and "game_loop v inp g = Inr g'"
  shows "obstacle_timer g' =
      (if obstacle_due g \<and> obstacle_draw inp \<le> 0.5 then 0 else obstacle_timer g + 1)"
    and "pickup_timer g' =
      (if pickup_due g \<and> pickup_draw inp < 0.2 then 0 else pickup_timer g + 1)"
    and "pools_shift (spawned inp g) g'"
proof -
  let ?s = "(spawned inp g)
      \<lparr>bound_keys := bound_keys g \<union> {KeyA, KeyD}, player := fall (player g)\<rparr>"
  from game_loop_spawned [OF assms] obtain g3 g4 where
    3: "obstacle_loop v 0 ?s = Inr g3" and 4: "pickup_loop v inp 0 g3 = Inr g4"
    and 5: "g' = g4\<lparr>timer_pending := True\<rparr>"
    by blast
  from 3 4 have "obstacle_timer g4 = obstacle_timer ?s" "pickup_timer g4 = pickup_timer ?s"
    by (auto dest!: obstacle_loop_frame pickup_loop_frame simp: obstacle_frame_def pickup_frame_def)
  with 5 show "obstacle_timer g' =
      (if obstacle_due g \<and> obstacle_draw inp \<le> 0.5 then 0 else obstacle_timer g + 1)"
    and "pickup_timer g' =
      (if pickup_due g \<and> pickup_draw inp < 0.2 then 0 else pickup_timer g + 1)"
    by (simp_all add: spawned_def admit_obstacle_def admit_pickup_def tick_timers_def Let_def)
  from 3 have "pools_shift ?s g3" by (rule obstacle_loop_shift)
  moreover from 4 have "pools_shift g3 g4" by (rule pickup_loop_shift)
  ultimately have "pools_shift ?s g4" by (rule pools_shift_trans)
  with 5 show "pools_shift (spawned inp g) g'" by (simp add: pools_shift_def)
qed


lemma fold_key_event_player:
  "\<exists>p. fold (key_event v) ks g = g\<lparr>player := p\<rparr> \<and> hitpoints p = hitpoints (player g)"
proof (induction ks arbitrary: g)
  case Nil
  have "fold (key_event v) [] g = g\<lparr>player := player g\<rparr> \<and>
      hitpoints (player g) = hitpoints (player g)"
    by simp
  then show ?case by (rule exI)
next
  case (Cons k ks)
  let ?g = "key_event v k g"
  from Cons.IH [of ?g] obtain p where
    p: "fold (key_event v) ks ?g = ?g\<lparr>player := p\<rparr>" "hitpoints p = hitpoints (player ?g)"
    by blast
  have "?g\<lparr>player := p\<rparr> = g\<lparr>player := p\<rparr>" "hitpoints (player ?g) = hitpoints (player g)"
    by (simp_all add: key_event_def handler_hitpoints)
  with p show ?case by auto
qed

lemma session_step_running:
  assumes "timer_pending g" and "0 < hitpoints (player g)" and "session_step v inp g = Inr g'"
  shows "\<exists>p. hitpoints p = hitpoints (player g) \<and>
    \<not> game_over (g\<lparr>player := p, timer_pending := False\<rparr>) \<and>
    game_loop v inp (g\<lparr>player := p, timer_pending := False\<rparr>) = Inr g'"
proof -
  obtain p where p: "fold (key_event v) (keys inp) g = g\<lparr>player := p\<rparr>"
    "hitpoints p = hitpoints (player g)"
    using fold_key_event_player by blast
  with assms have "game_loop v inp (g\<lparr>player := p, timer_pending := False\<rparr>) = Inr g'"
    by (simp add: session_step_def)
  with p(2) assms(2) show ?thesis by (auto simp: game_over_def)
qed

lemma obstacle_retry:
  assumes "\<not> game_over g" and "game_loop v inp g = Inr g'"
    and "obstacle_due g" and "\<not> obstacle_draw inp \<le> 0.5"
  shows "obstacle_due g'" and "obstacle_timer g' = obstacle_timer g + 1" and "timer_pending g'"
proof -
  note t = game_loop_timers [OF assms(1,2)]
  from assms(3,4) t(1) show 1: "obstacle_timer g' = obstacle_timer g + 1" by simp
  from assms(4) have "in_play_obstacles (spawned inp g) = in_play_obstacles g"
    "waiting_obstacles (spawned inp g) = waiting_obstacles g"
    by (simp_all add: spawned_def admit_pickup_def tick_timers_def Let_def)
  with t(3) assms(3) 1 show "obstacle_due g'"
    by (auto simp: pools_shift_def obstacle_due_def)
  from game_loop_spawned [OF assms(1,2)] show "timer_pending g'" by auto
qed

lemma pickup_retry:
  assumes "\<not> game_over g" and "game_loop v inp g = Inr g'"
    and "pickup_due g" and "\<not> pickup_draw inp < 0.2"
  shows "pickup_due g'" and "pickup_timer g' = pickup_timer g + 1" and "timer_pending g'"
proof -
  note t = game_loop_timers [OF assms(1,2)]
  from assms(3,4) t(2) show 1: "pickup_timer g' = pickup_timer g + 1" by simp
  from assms(4) have "in_play_pickups (spawned inp g) = in_play_pickups g"
    "waiting_pickups (spawned inp g) = waiting_pickups g"
    by (simp_all add: spawned_def admit_obstacle_def tick_timers_def Let_def)
  with t(3) assms(3) 1 show "pickup_due g'"
    by (auto simp: pools_shift_def pickup_due_def)
  from game_loop_spawned [OF assms(1,2)] show "timer_pending g'" by auto
qed

text \<open>
  C1, amended. On a running tick each timer is incremented; it is then reset to 0 exactly
  when it has reached its threshold, the cap is not reached, the waiting pool is not
  empty and the draw succeeds, and exactly then the head of the waiting list is moved to
  the end of the in-play list, before the loops of that tick run. When the three tests
  hold and the draw fails, the timer keeps its incremented value and nothing is
  admitted; the three tests then hold again after the tick, and if the game is not over
  the next step makes the draw again, which alone decides whether the timer is reset.
\<close>

theorem spawn_timer_reset:
  assumes "\<not> game_over g" and "game_loop v inp g = Inr g'"
  shows "obstacle_timer g' =
      (if obstacle_due g \<and> obstacle_draw inp \<le> 0.5 then 0 else obstacle_timer g + 1) \<and>
    pickup_timer g' =
      (if pickup_due g \<and> pickup_draw inp < 0.2 then 0 else pickup_timer g + 1) \<and>
    (\<exists>g3 g4.
      obstacle_loop v 0 ((spawned inp g)
        \<lparr>bound_keys := bound_keys g \<union> {KeyA, KeyD}, player := fall (player g)\<rparr>) = Inr g3 \<and>
      pickup_loop v inp 0 g3 = Inr g4 \<and> g' = g4\<lparr>timer_pending := True\<rparr>) \<and>
    waiting_obstacles (spawned inp g) =
      (if obstacle_due g \<and> obstacle_draw inp \<le> 0.5
       then tl (waiting_obstacles g) else waiting_obstacles g) \<and>
    in_play_obstacles (spawned inp g) =
      (if obstacle_due g \<and> obstacle_draw inp \<le> 0.5
       then in_play_obstacles g @ [hd (waiting_obstacles g)] else in_play_obstacles g) \<and>
    waiting_pickups (spawned inp g) =
      (if pickup_due g \<and> pickup_draw inp < 0.2
       then tl (waiting_pickups g) else waiting_pickups g) \<and>
    in_play_pickups (spawned inp g) =
      (if pickup_due g \<and> pickup_draw inp < 0.2
       then in_play_pickups g @ [hd (waiting_pickups g)] else in_play_pickups g) \<and>
    (obstacle_due g \<and> \<not> obstacle_draw inp \<le> 0.5 \<longrightarrow>
       obstacle_due g' \<and>
       (\<forall>inq g''. 0 < hitpoints (player g') \<and> session_step v inq g' = Inr g'' \<longrightarrow>
          obstacle_timer g'' = (if obstacle_draw inq \<le> 0.5 then 0 else obstacle_timer g + 2))) \<and>
    (pickup_due g \<and> \<not> pickup_draw inp < 0.2 \<longrightarrow>
       pickup_due g' \<and>
       (\<forall>inq g''. 0 < hitpoints (player g') \<and> session_step v inq g' = Inr g'' \<longrightarrow>
          pickup_timer g'' = (if pickup_draw inq < 0.2 then 0 else pickup_timer g + 2)))"
proof (intro conjI impI allI)
  note t = game_loop_timers [OF assms]
  from t(1) show "obstacle_timer g' =
      (if obstacle_due g \<and> obstacle_draw inp \<le> 0.5 then 0 else obstacle_timer g + 1)" .
  from t(2) show "pickup_timer g' =
      (if pickup_due g \<and> pickup_draw inp < 0.2 then 0 else pickup_timer g + 1)" .
  from assms show "\<exists>g3 g4.
      obstacle_loop v 0 ((spawned inp g)
        \<lparr>bound_keys := bound_keys g \<union> {KeyA, KeyD}, player := fall (player g)\<rparr>) = Inr g3 \<and>
      pickup_loop v inp 0 g3 = Inr g4 \<and> g' = g4\<lparr>timer_pending := True\<rparr>"
    by (rule game_loop_spawned)
  show "waiting_obstacles (spawned inp g) =
      (if obstacle_due g \<and> obstacle_draw inp \<le> 0.5
       then tl (waiting_obstacles g) else waiting_obstacles g)"
    and "in_play_obstacles (spawned inp g) =
      (if obstacle_due g \<and> obstacle_draw inp \<le> 0.5
       then in_play_obstacles g @ [hd (waiting_obstacles g)] else in_play_obstacles g)"
    and "waiting_pickups (spawned inp g) =
      (if pickup_due g \<and> pickup_draw inp < 0.2
       then tl (waiting_pickups g) else waiting_pickups g)"
    and "in_play_pickups (spawned inp g) =
      (if pickup_due g \<and> pickup_draw inp < 0.2
       then in_play_pickups g @ [hd (waiting_pickups g)] else in_play_pickups g)"
    by (simp_all add: spawned_def admit_obstacle_def admit_pickup_def tick_timers_def Let_def)
next
  assume a: "obstacle_due g \<and> \<not> obstacle_draw inp \<le> 0.5"
  then show "obstacle_due g'"
    using obstacle_retry(1) [OF assms] by simp
next
  fix inq g''
  assume a: "obstacle_due g \<and> \<not> obstacle_draw inp \<le> 0.5"
    and b: "0 < hitpoints (player g') \<and> session_step v inq g' = Inr g''"
  from a have r: "obstacle_due g'" "obstacle_timer g' = obstacle_timer g + 1" "timer_pending g'"
    using obstacle_retry [OF assms] by simp_all
  from session_step_running [OF r(3)] b obtain p where
    p: "\<not> game_over (g'\<lparr>player := p, timer_pending := False\<rparr>)"
      "game_loop v inq (g'\<lparr>player := p, timer_pending := False\<rparr>) = Inr g''"
    by blast
  from r(1) have "obstacle_due (g'\<lparr>player := p, timer_pending := False\<rparr>)"
    by (simp add: obstacle_due_def)
  with game_loop_timers(1) [OF p] r(2)
  show "obstacle_timer g'' = (if obstacle_draw inq \<le> 0.5 then 0 else obstacle_timer g + 2)"
    by simp
next
  assume a: "pickup_due g \<and> \<not> pickup_draw inp < 0.2"
  then show "pickup_due g'"
    using pickup_retry(1) [OF assms] by simp
next
  fix inq g''
  assume a: "pickup_due g \<and> \<not> pickup_draw inp < 0.2"
    and b: "0 < hitpoints (player g') \<and> session_step v inq g' = Inr g''"
  from a have r: "pickup_due g'" "pickup_timer g' = pickup_timer g + 1" "timer_pending g'"
    using pickup_retry [OF assms] by simp_all
  from session_step_running [OF r(3)] b obtain p where
    p: "\<not> game_over (g'\<lparr>player := p, timer_pending := False\<rparr>)"
      "game_loop v inq (g'\<lparr>player := p, timer_pending := False\<rparr>) = Inr g''"
    by blast
  from r(1) have "pickup_due (g'\<lparr>player := p, timer_pending := False\<rparr>)"
    by (simp add: pickup_due_def)
  with game_loop_timers(2) [OF p] r(2)
  show "pickup_timer g'' = (if pickup_draw inq < 0.2 then 0 else pickup_timer g + 2)"
    by simp
qed

text \<open>
  The tick of main.py that starts in \<open>stalled\<close> with failing draws, and the step after it,
  in which the obstacle draw succeeds and obstacle 0 is admitted and moved once.
\<close>

definition stalled_tick :: game where
  "stalled_tick = (stalled Main)\<lparr>obstacle_timer := 30, pickup_timer := 45\<rparr>"

lemma session_step_stalled_tick:
  "session_step Main eager stalled_tick = Inr (admitted\<lparr>pickup_timer := 46\<rparr>)"
  by (auto simp: session_step_def game_loop_def game_over_def eager_def admitted_def
        stalled_tick_def stalled_def scene_defs spawn_obstacle_def spawn_pickup_def
        obstacle_loop_step obstacle_loop_stop pickup_loop_stop fall_def handle_defs
        move_obstacle_def obstacle_move_def check_collision_def obstacle_is_out_of_screen_def
        const_defs upt_conv_Cons)

theorem spawn_timer_reset_witness:
  "\<not> game_over (stalled Main) \<and>
   game_loop Main quiet (stalled Main) = Inr stalled_tick \<and>
   obstacle_due (stalled Main) \<and> \<not> obstacle_draw quiet \<le> 0.5 \<and>
   pickup_due (stalled Main) \<and> \<not> pickup_draw quiet < 0.2 \<and>
   obstacle_timer stalled_tick = 30 \<and> pickup_timer stalled_tick = 45 \<and>
   in_play_obstacles stalled_tick = [] \<and>
   obstacle_due stalled_tick \<and> pickup_due stalled_tick \<and>
   session_step Main eager stalled_tick = Inr (admitted\<lparr>pickup_timer := 46\<rparr>) \<and>
   obstacle_draw eager \<le> 0.5 \<and> \<not> pickup_draw eager < 0.2 \<and>
   obstacle_timer (admitted\<lparr>pickup_timer := 46\<rparr>) = 0 \<and>
   pickup_timer (admitted\<lparr>pickup_timer := 46\<rparr>) = 46 \<and>
   in_play_obstacles (admitted\<lparr>pickup_timer := 46\<rparr>) = [0] \<and>
   waiting_obstacles (admitted\<lparr>pickup_timer := 46\<rparr>) = [1, 2, 3, 4, 5, 6, 7, 8, 9]"
proof -
  have a: "\<not> game_over (stalled Main)"
    by (simp add: game_over_def stalled_def first_state_def init_def)
  have l: "game_loop Main quiet (stalled Main) = Inr stalled_tick"
    by (simp add: game_loop_stalled stalled_tick_def)
  have d: "obstacle_due (stalled Main)" "\<not> obstacle_draw quiet \<le> 0.5"
    "pickup_due (stalled Main)" "\<not> pickup_draw quiet < 0.2"
    "obstacle_draw eager \<le> 0.5" "\<not> pickup_draw eager < 0.2"
    "0 < hitpoints (player stalled_tick)" "in_play_obstacles stalled_tick = []"
    "obstacle_timer (stalled Main) = 29" "pickup_timer (stalled Main) = 44"
    by (simp_all add: obstacle_due_def pickup_due_def stalled_tick_def stalled_def
          first_state_def init_def quiet_def eager_def)
  note t = spawn_timer_reset [OF a l]
  from t d have "obstacle_timer stalled_tick = 30" "pickup_timer stalled_tick = 45"
    "obstacle_due stalled_tick" "pickup_due stalled_tick"
    by simp_all
  moreover from t d session_step_stalled_tick
  have "obstacle_timer (admitted\<lparr>pickup_timer := 46\<rparr>) = 0"
    "pickup_timer (admitted\<lparr>pickup_timer := 46\<rparr>) = 46"
    by simp_all
  moreover have "in_play_obstacles (admitted\<lparr>pickup_timer := 46\<rparr>) = [0]"
    "waiting_obstacles (admitted\<lparr>pickup_timer := 46\<rparr>) = [1, 2, 3, 4, 5, 6, 7, 8, 9]"
    by (simp_all add: admitted_def scene_defs upt_conv_Cons)
  ultimately show ?thesis
    using a l d session_step_stalled_tick by simp
qed

section \<open>The last tick\<close>

text \<open>
  The same state with \<open>d\<close> more hitpoints. Apart from the test at its start, a call of
  \<^verbatim>\<open>game_loop\<close> never reads the hitpoints except to decrement them, so a tick does to a
  state what it does to the state with more hitpoints.
\<close>

definition spare :: "int \<Rightarrow> game \<Rightarrow> game" where
  "spare d g = g\<lparr>player := (player g)\<lparr>hitpoints := hitpoints (player g) + d\<rparr>\<rparr>"



definition spare_result :: "int \<Rightarrow> error + game \<Rightarrow> error + game" where
  "spare_result d r = (case r of Inl e \<Rightarrow> Inl e | Inr g \<Rightarrow> Inr (spare d g))"

lemma spare_result_simps:
  "spare_result d (Inl e) = Inl e" "spare_result d (Inr g) = Inr (spare d g)"
  by (simp_all add: spare_result_def)




























section \<open>The loops and the lists they iterate\<close>

text \<open>Removing the element at the cursor from a list without repetitions.\<close>

lemma remove1_nth_conv:
  assumes "distinct xs" and "c < length xs"
  shows "remove1 (xs ! c) xs = take c xs @ drop (Suc c) xs"
  using assms
proof (induction xs arbitrary: c)
  case Nil
  then show ?case by simp
next
  case (Cons x xs)
  show ?case
  proof (cases c)
    case 0
    then show ?thesis by simp
  next
    case (Suc d)
    with Cons.prems have "xs ! d \<noteq> x" "d < length xs" "distinct xs" by auto
    with Cons.IH [of d] Suc show ?thesis by simp
  qed
qed

lemma remove1_nth_before:
  assumes "distinct xs" and "c < length xs" and "p < c"
  shows "remove1 (xs ! c) xs ! p = xs ! p"
  using assms by (simp add: remove1_nth_conv nth_append)

lemma remove1_nth_after:
  assumes "distinct xs" and "c < q" and "q < length xs"
  shows "remove1 (xs ! c) xs ! (q - 1) = xs ! q"
proof -
  from assms have c: "c < length xs" by simp
  from assms have "\<not> q - 1 < c" by simp
  with c have "(take c xs @ drop (Suc c) xs) ! (q - 1) = drop (Suc c) xs ! (q - 1 - c)"
    by (simp add: nth_append min_def)
  also from assms have "\<dots> = xs ! (Suc c + (q - 1 - c))" by simp
  also from assms have "Suc c + (q - 1 - c) = q" by simp
  finally show ?thesis using assms(1) c by (simp add: remove1_nth_conv)
qed

text \<open>
  One iteration of the obstacle loop either leaves the in-play list as it is or removes
  the obstacle at the cursor from it, and changes no other obstacle.
\<close>

lemma handle_obstacle_step:
  assumes "handle_obstacle v (move_obstacle k g) k = Inr g'"
  shows "in_play_obstacles g' = in_play_obstacles g \<or>
      in_play_obstacles g' = remove1 k (in_play_obstacles g)"
    and "b \<noteq> k \<Longrightarrow> obstacles g' b = obstacles g b"
  using assms
  by (cases v;
      auto simp: handle_defs move_obstacle_def obstacle_move_def obstacle_is_out_of_screen_def
        const_defs split: if_splits sum.splits)+

lemma handle_pickup_step:
  assumes "handle_pickup v r (move_pickup s w k g) k = Inr g'"
  shows "in_play_pickups g' = in_play_pickups g \<or>
      in_play_pickups g' = remove1 k (in_play_pickups g)"
    and "b \<noteq> k \<Longrightarrow> pickups g' b = pickups g b"
  using assms
  by (cases v;
      auto simp: handle_defs move_pickup_def pickup_move_def pickup_is_out_of_screen_def
        const_defs split: if_splits sum.splits)+

text \<open>An obstacle behind the cursor is never reached again.\<close>

lemma obstacle_loop_behind:
  assumes "obstacle_loop v c g = Inr g'" and "distinct (in_play_obstacles g)"
    and "p < c" and "p < length (in_play_obstacles g)"
  shows "in_play_obstacles g ! p \<in> set (in_play_obstacles g') \<and>
    obstacles g' (in_play_obstacles g ! p) = obstacles g (in_play_obstacles g ! p)"
  using assms
proof (induction v c g rule: obstacle_loop.induct)
  case (1 v c g)
  let ?L = "in_play_obstacles g"
  show ?case
  proof (cases "c < length ?L")
    case False
    with "1.prems" show ?thesis by (simp add: obstacle_loop_stop)
  next
    case True
    let ?k = "?L ! c"
    from True "1.prems"(1) obtain g1 where
      h: "handle_obstacle v (move_obstacle ?k g) ?k = Inr g1" and
      l: "obstacle_loop v (c + 1) g1 = Inr g'"
      by (auto simp: obstacle_loop_step split: sum.splits)
    from "1.prems"(2,3,4) True have n: "?L ! p \<noteq> ?k"
      by (simp add: nth_eq_iff_index_eq)
    from handle_obstacle_step(1) [OF h] "1.prems"(2,3,4) True
    have d: "distinct (in_play_obstacles g1)" and q: "p < length (in_play_obstacles g1)"
      and e: "in_play_obstacles g1 ! p = ?L ! p"
      by (auto simp: remove1_nth_before length_remove1)
    from n have o: "obstacles g1 (?L ! p) = obstacles g (?L ! p)"
      by (rule handle_obstacle_step(2) [OF h])
    from "1.prems"(3) have "p < c + 1" by simp
    from "1.IH" [OF True h l d this q] e o show ?thesis by simp
  qed
qed

text \<open>
  When the obstacle at position \<open>j\<close>, at or after the cursor, is out of the list at the end
  of the loop, the obstacle at position \<open>j + 1\<close> is still in the list and is unchanged.
\<close>

lemma obstacle_loop_skip:
  assumes "obstacle_loop v c g = Inr g'" and "distinct (in_play_obstacles g)"
    and "c \<le> j" and "j + 1 < length (in_play_obstacles g)"
    and "in_play_obstacles g ! j \<notin> set (in_play_obstacles g')"
  shows "in_play_obstacles g ! (j + 1) \<in> set (in_play_obstacles g') \<and>
    obstacles g' (in_play_obstacles g ! (j + 1)) = obstacles g (in_play_obstacles g ! (j + 1))"
  using assms
proof (induction v c g arbitrary: j rule: obstacle_loop.induct)
  case (1 v c g)
  let ?L = "in_play_obstacles g"
  let ?a = "?L ! j" and ?b = "?L ! (j + 1)"
  let ?k = "?L ! c"
  from "1.prems"(3,4) have True: "c < length ?L" by simp
  with "1.prems"(1) obtain g1 where
    h: "handle_obstacle v (move_obstacle ?k g) ?k = Inr g1" and
    l: "obstacle_loop v (c + 1) g1 = Inr g'"
    by (auto simp: obstacle_loop_step split: sum.splits)
  note s = handle_obstacle_step [OF h]
  from "1.prems"(2,3,4) have nb: "?b \<noteq> ?k"
    by (simp add: nth_eq_iff_index_eq)
  then have ob: "obstacles g1 ?b = obstacles g ?b" by (rule s(2))
  from s(1) "1.prems"(2) have d: "distinct (in_play_obstacles g1)" by auto
  from s(1) show ?case
  proof
    assume same: "in_play_obstacles g1 = ?L"
    show ?thesis
    proof (cases "c = j")
      case True
      from "1.prems"(4) same have "j < c + 1" "j < length (in_play_obstacles g1)"
        using True by simp_all
      from obstacle_loop_behind [OF l d this] same "1.prems"(5) show ?thesis by simp
    next
      case False
      with "1.prems"(3) have "c + 1 \<le> j" by simp
      from "1.IH" [OF \<open>c < length ?L\<close> h l d this] same "1.prems"(4,5) ob show ?thesis
        by simp
    qed
  next
    assume gone: "in_play_obstacles g1 = remove1 ?k ?L"
    have len: "length (in_play_obstacles g1) = length ?L - 1"
      using gone \<open>c < length ?L\<close> by (simp add: length_remove1)
    show ?thesis
    proof (cases "c = j")
      case True
      have "in_play_obstacles g1 ! c = ?L ! (c + 1)"
        using remove1_nth_after [OF "1.prems"(2), of c "c + 1"] "1.prems"(4) True gone by simp
      moreover have "c < c + 1" "c < length (in_play_obstacles g1)"
        using len "1.prems"(4) True by simp_all
      ultimately show ?thesis
        using obstacle_loop_behind [OF l d, of c] ob True by simp
    next
      case False
      with "1.prems"(3) have cj: "c < j" by simp
      have ea: "in_play_obstacles g1 ! (j - 1) = ?a"
        using remove1_nth_after [OF "1.prems"(2), of c j] cj "1.prems"(4) gone by simp
      have eb: "in_play_obstacles g1 ! j = ?b"
        using remove1_nth_after [OF "1.prems"(2), of c "j + 1"] cj "1.prems"(4) gone by simp
      show ?thesis
      proof (cases "j = c + 1")
        case True
        have "j - 1 < c + 1" "j - 1 < length (in_play_obstacles g1)"
          using True len "1.prems"(4) by simp_all
        from obstacle_loop_behind [OF l d this] ea "1.prems"(5) show ?thesis by simp
      next
        case False
        with cj have "c + 1 \<le> j - 1" by simp
        moreover have "j - 1 + 1 < length (in_play_obstacles g1)"
          using len "1.prems"(4) cj by simp
        moreover have "in_play_obstacles g1 ! (j - 1) \<notin> set (in_play_obstacles g')"
          using ea "1.prems"(5) by simp
        ultimately have "in_play_obstacles g1 ! (j - 1 + 1) \<in> set (in_play_obstacles g') \<and>
            obstacles g' (in_play_obstacles g1 ! (j - 1 + 1)) =
            obstacles g1 (in_play_obstacles g1 ! (j - 1 + 1))"
          by (rule "1.IH" [OF \<open>c < length ?L\<close> h l d])
        moreover from cj have "j - 1 + 1 = j" by simp
        ultimately show ?thesis using eb ob by simp
      qed
    qed
  qed
qed


text \<open>The same two facts for the pickup loop.\<close>

lemma pickup_loop_behind:
  assumes "pickup_loop v inp c g = Inr g'" and "distinct (in_play_pickups g)"
    and "p < c" and "p < length (in_play_pickups g)"
  shows "in_play_pickups g ! p \<in> set (in_play_pickups g') \<and>
    pickups g' (in_play_pickups g ! p) = pickups g (in_play_pickups g ! p)"
  using assms
proof (induction v inp c g rule: pickup_loop.induct)
  case (1 v inp c g)
  let ?L = "in_play_pickups g"
  show ?case
  proof (cases "c < length ?L")
    case False
    with "1.prems" show ?thesis by (simp add: pickup_loop_stop)
  next
    case True
    let ?k = "?L ! c"
    from True "1.prems"(1) obtain g1 where
      h: "handle_pickup v (respawn_draw inp c)
        (move_pickup (speed_draw inp c) (wobble_draw inp c) ?k g) ?k = Inr g1" and
      l: "pickup_loop v inp (c + 1) g1 = Inr g'"
      by (auto simp: pickup_loop_step split: sum.splits)
    from "1.prems"(2,3,4) True have n: "?L ! p \<noteq> ?k"
      by (simp add: nth_eq_iff_index_eq)
    from handle_pickup_step(1) [OF h] "1.prems"(2,3,4) True
    have d: "distinct (in_play_pickups g1)" and q: "p < length (in_play_pickups g1)"
      and e: "in_play_pickups g1 ! p = ?L ! p"
      by (auto simp: remove1_nth_before length_remove1)
    from n have o: "pickups g1 (?L ! p) = pickups g (?L ! p)"
      by (rule handle_pickup_step(2) [OF h])
    from "1.prems"(3) have "p < c + 1" by simp
    from "1.IH" [OF True h l d this q] e o show ?thesis by simp
  qed
qed

lemma pickup_loop_skip:
  assumes "pickup_loop v inp c g = Inr g'" and "distinct (in_play_pickups g)"
    and "c \<le> j" and "j + 1 < length (in_play_pickups g)"
    and "in_play_pickups g ! j \<notin> set (in_play_pickups g')"
  shows "in_play_pickups g ! (j + 1) \<in> set (in_play_pickups g') \<and>
    pickups g' (in_play_pickups g ! (j + 1)) = pickups g (in_play_pickups g ! (j + 1))"
  using assms
proof (induction v inp c g arbitrary: j rule: pickup_loop.induct)
  case (1 v inp c g)
  let ?L = "in_play_pickups g"
  let ?a = "?L ! j" and ?b = "?L ! (j + 1)"
  let ?k = "?L ! c"
  from "1.prems"(3,4) have True: "c < length ?L" by simp
  with "1.prems"(1) obtain g1 where
    h: "handle_pickup v (respawn_draw inp c)
        (move_pickup (speed_draw inp c) (wobble_draw inp c) ?k g) ?k = Inr g1" and
    l: "pickup_loop v inp (c + 1) g1 = Inr g'"
    by (auto simp: pickup_loop_step split: sum.splits)
  note s = handle_pickup_step [OF h]
  from "1.prems"(2,3,4) have nb: "?b \<noteq> ?k"
    by (simp add: nth_eq_iff_index_eq)
  then have ob: "pickups g1 ?b = pickups g ?b" by (rule s(2))
  from s(1) "1.prems"(2) have d: "distinct (in_play_pickups g1)" by auto
  from s(1) show ?case
  proof
    assume same: "in_play_pickups g1 = ?L"
    show ?thesis
    proof (cases "c = j")
      case True
      from "1.prems"(4) same have "j < c + 1" "j < length (in_play_pickups g1)"
        using True by simp_all
      from pickup_loop_behind [OF l d this] same "1.prems"(5) show ?thesis by simp
    next
      case False
      with "1.prems"(3) have "c + 1 \<le> j" by simp
      from "1.IH" [OF \<open>c < length ?L\<close> h l d this] same "1.prems"(4,5) ob show ?thesis
        by simp
    qed
  next
    assume gone: "in_play_pickups g1 = remove1 ?k ?L"
    have len: "length (in_play_pickups g1) = length ?L - 1"
      using gone \<open>c < length ?L\<close> by (simp add: length_remove1)
    show ?thesis
    proof (cases "c = j")
      case True
      have "in_play_pickups g1 ! c = ?L ! (c + 1)"
        using remove1_nth_after [OF "1.prems"(2), of c "c + 1"] "1.prems"(4) True gone by simp
      moreover have "c < c + 1" "c < length (in_play_pickups g1)"
        using len "1.prems"(4) True by simp_all
      ultimately show ?thesis
        using pickup_loop_behind [OF l d, of c] ob True by simp
    next
      case False
      with "1.prems"(3) have cj: "c < j" by simp
      have ea: "in_play_pickups g1 ! (j - 1) = ?a"
        using remove1_nth_after [OF "1.prems"(2), of c j] cj "1.prems"(4) gone by simp
      have eb: "in_play_pickups g1 ! j = ?b"
        using remove1_nth_after [OF "1.prems"(2), of c "j + 1"] cj "1.prems"(4) gone by simp
      show ?thesis
      proof (cases "j = c + 1")
        case True
        have "j - 1 < c + 1" "j - 1 < length (in_play_pickups g1)"
          using True len "1.prems"(4) by simp_all
        from pickup_loop_behind [OF l d this] ea "1.prems"(5) show ?thesis by simp
      next
        case False
        with cj have "c + 1 \<le> j - 1" by simp
        moreover have "j - 1 + 1 < length (in_play_pickups g1)"
          using len "1.prems"(4) cj by simp
        moreover have "in_play_pickups g1 ! (j - 1) \<notin> set (in_play_pickups g')"
          using ea "1.prems"(5) by simp
        ultimately have "in_play_pickups g1 ! (j - 1 + 1) \<in> set (in_play_pickups g') \<and>
            pickups g' (in_play_pickups g1 ! (j - 1 + 1)) =
            pickups g1 (in_play_pickups g1 ! (j - 1 + 1))"
          by (rule "1.IH" [OF \<open>c < length ?L\<close> h l d])
        moreover from cj have "j - 1 + 1 = j" by simp
        ultimately show ?thesis using eb ob by simp
      qed
    qed
  qed
qed



text \<open>
  Two obstacles in play in main.py: obstacle 0 is one move away from the player, who
  stands on the ground, and obstacle 1 is further right. \<open>pair_tick\<close> is the state after the
  tick: obstacle 0 was recycled, and obstacle 1 is where it was.
\<close>

definition pair :: game where
  "pair = struck
     \<lparr> waiting_obstacles := [2, 3, 4, 5, 6, 7, 8, 9],
       in_play_obstacles := [0, 1],
       obstacles := (obstacles struck)(1 := \<lparr> ob_xcor = 100, ob_ycor = - 270, counted = False \<rparr>) \<rparr>"

definition pair_tick :: game where
  "pair_tick = pair
     \<lparr> player := \<lparr> xcor = - 415, ycor = - 250, dy = 0, hitpoints = 0 \<rparr>,
       waiting_obstacles := [2, 3, 4, 5, 6, 7, 8, 9, 0],
       in_play_obstacles := [1],
       obstacles := (obstacles pair)(0 := \<lparr> ob_xcor = 1260, ob_ycor = - 270, counted = False \<rparr>),
       obstacle_timer := 2, pickup_timer := 17 \<rparr>"

lemma game_loop_pair: "game_loop Main quiet pair = Inr pair_tick"
  by (auto simp: game_loop_def game_over_def pair_def pair_tick_def struck_defs
        scene_defs spawn_obstacle_def spawn_pickup_def obstacle_loop_step obstacle_loop_stop
        pickup_loop_stop fall_def handle_defs move_obstacle_def obstacle_move_def
        check_collision_def obstacle_is_out_of_screen_def const_defs)

lemma spawned_obstacles:
  "obstacles (spawned inp g) = obstacles g"
  by (simp add: spawned_def admit_obstacle_def admit_pickup_def tick_timers_def Let_def)

lemma spawned_distinct:
  assumes "distinct (waiting_obstacles g @ in_play_obstacles g)"
  shows "distinct (in_play_obstacles (spawned inp g))"
proof (cases "waiting_obstacles g")
  case Nil
  with assms show ?thesis
    by (simp add: spawned_def admit_obstacle_def admit_pickup_def tick_timers_def Let_def
          obstacle_due_def)
next
  case (Cons k ks)
  with assms show ?thesis
    by (simp add: spawned_def admit_obstacle_def admit_pickup_def tick_timers_def Let_def)
qed

lemma game_loop_skip:
  assumes "\<not> game_over g" and "game_loop v inp g = Inr g'"
    and "distinct (waiting_obstacles g @ in_play_obstacles g)"
    and "i + 1 < length (in_play_obstacles (spawned inp g))"
    and "in_play_obstacles (spawned inp g) ! i \<notin> set (in_play_obstacles g')"
  shows "in_play_obstacles (spawned inp g) ! (i + 1) \<in> set (in_play_obstacles g') \<and>
    obstacles g' (in_play_obstacles (spawned inp g) ! (i + 1)) =
      obstacles g (in_play_obstacles (spawned inp g) ! (i + 1))"
proof -
  let ?s = "(spawned inp g)
      \<lparr>bound_keys := bound_keys g \<union> {KeyA, KeyD}, player := fall (player g)\<rparr>"
  from game_loop_spawned [OF assms(1,2)] obtain g3 g4 where
    3: "obstacle_loop v 0 ?s = Inr g3" and 4: "pickup_loop v inp 0 g3 = Inr g4"
    and 5: "g' = g4\<lparr>timer_pending := True\<rparr>"
    by blast
  from 4 have f: "pickup_frame g3 g4" by (rule pickup_loop_frame)
  with 5 have e: "in_play_obstacles g' = in_play_obstacles g3" "obstacles g' = obstacles g3"
    by (simp_all add: pickup_frame_def)
  have d: "distinct (in_play_obstacles ?s)"
    using spawned_distinct [OF assms(3), of inp] by simp
  have "in_play_obstacles ?s ! (i + 1) \<in> set (in_play_obstacles g3) \<and>
      obstacles g3 (in_play_obstacles ?s ! (i + 1)) = obstacles ?s (in_play_obstacles ?s ! (i + 1))"
    using 3 d
  proof (rule obstacle_loop_skip)
    show "0 \<le> i" by simp
    from assms(4) show "i + 1 < length (in_play_obstacles ?s)" by simp
    from assms(5) e show "in_play_obstacles ?s ! i \<notin> set (in_play_obstacles g3)" by simp
  qed
  with e show ?thesis by (simp add: spawned_obstacles)
qed

text \<open>
  C10. When the entity at position \<open>i\<close> of the in-play list at the start of a loop is out
  of the list at the end of the loop, that is, it was recycled by the loop, the entity at
  position \<open>i + 1\<close> at the start is still in the list at the end and its object is what
  it was at the start: it was neither moved, which would have changed its position, nor
  resolved. This holds of the obstacle loop and of the pickup loop when the list holds
  no object twice, and of the obstacle loop of every running tick of a session, where
  the list at the start of the loop is the in-play list after the spawn block; in the
  states of a session no object is in the lists twice.
\<close>

theorem loop_skips_next:
  "(obstacle_loop v 0 g = Inr g' \<and> distinct (in_play_obstacles g) \<and>
      i + 1 < length (in_play_obstacles g) \<and>
      in_play_obstacles g ! i \<notin> set (in_play_obstacles g') \<longrightarrow>
        in_play_obstacles g ! (i + 1) \<in> set (in_play_obstacles g') \<and>
        obstacles g' (in_play_obstacles g ! (i + 1)) = obstacles g (in_play_obstacles g ! (i + 1))) \<and>
   (pickup_loop v inp 0 g = Inr g' \<and> distinct (in_play_pickups g) \<and>
      i + 1 < length (in_play_pickups g) \<and>
      in_play_pickups g ! i \<notin> set (in_play_pickups g') \<longrightarrow>
        in_play_pickups g ! (i + 1) \<in> set (in_play_pickups g') \<and>
        pickups g' (in_play_pickups g ! (i + 1)) = pickups g (in_play_pickups g ! (i + 1))) \<and>
   (\<not> game_over g \<and> game_loop v inp g = Inr g' \<and>
      distinct (waiting_obstacles g @ in_play_obstacles g) \<and>
      i + 1 < length (in_play_obstacles (spawned inp g)) \<and>
      in_play_obstacles (spawned inp g) ! i \<notin> set (in_play_obstacles g') \<longrightarrow>
        in_play_obstacles (spawned inp g) ! (i + 1) \<in> set (in_play_obstacles g') \<and>
        obstacles g' (in_play_obstacles (spawned inp g) ! (i + 1)) =
          obstacles g (in_play_obstacles (spawned inp g) ! (i + 1))) \<and>
   (reachable v g \<longrightarrow>
      distinct (waiting_obstacles g @ in_play_obstacles g) \<and>
      distinct (waiting_pickups g @ in_play_pickups g))"
proof (intro conjI impI)
  assume a: "obstacle_loop v 0 g = Inr g' \<and> distinct (in_play_obstacles g) \<and>
      i + 1 < length (in_play_obstacles g) \<and>
      in_play_obstacles g ! i \<notin> set (in_play_obstacles g')"
  then have "in_play_obstacles g ! (i + 1) \<in> set (in_play_obstacles g') \<and>
      obstacles g' (in_play_obstacles g ! (i + 1)) = obstacles g (in_play_obstacles g ! (i + 1))"
    using obstacle_loop_skip [of v 0 g g' i] by simp
  then show "in_play_obstacles g ! (i + 1) \<in> set (in_play_obstacles g')"
    and "obstacles g' (in_play_obstacles g ! (i + 1)) = obstacles g (in_play_obstacles g ! (i + 1))"
    by simp_all
next
  assume a: "pickup_loop v inp 0 g = Inr g' \<and> distinct (in_play_pickups g) \<and>
      i + 1 < length (in_play_pickups g) \<and>
      in_play_pickups g ! i \<notin> set (in_play_pickups g')"
  then have "in_play_pickups g ! (i + 1) \<in> set (in_play_pickups g') \<and>
      pickups g' (in_play_pickups g ! (i + 1)) = pickups g (in_play_pickups g ! (i + 1))"
    using pickup_loop_skip [of v inp 0 g g' i] by simp
  then show "in_play_pickups g ! (i + 1) \<in> set (in_play_pickups g')"
    and "pickups g' (in_play_pickups g ! (i + 1)) = pickups g (in_play_pickups g ! (i + 1))"
    by simp_all
next
  assume a: "\<not> game_over g \<and> game_loop v inp g = Inr g' \<and>
      distinct (waiting_obstacles g @ in_play_obstacles g) \<and>
      i + 1 < length (in_play_obstacles (spawned inp g)) \<and>
      in_play_obstacles (spawned inp g) ! i \<notin> set (in_play_obstacles g')"
  then have "in_play_obstacles (spawned inp g) ! (i + 1) \<in> set (in_play_obstacles g') \<and>
      obstacles g' (in_play_obstacles (spawned inp g) ! (i + 1)) =
        obstacles g (in_play_obstacles (spawned inp g) ! (i + 1))"
    using game_loop_skip [of g v inp g' i] by simp
  then show "in_play_obstacles (spawned inp g) ! (i + 1) \<in> set (in_play_obstacles g')"
    and "obstacles g' (in_play_obstacles (spawned inp g) ! (i + 1)) =
        obstacles g (in_play_obstacles (spawned inp g) ! (i + 1))"
    by simp_all
next
  assume "reachable v g"
  then have "pools_ok g" by (rule reachable_pools)
  then show "distinct (waiting_obstacles g @ in_play_obstacles g)"
    and "distinct (waiting_pickups g @ in_play_pickups g)"
    by (simp_all add: pools_ok_def)
qed

text \<open>
  The tick of \<open>pair\<close>: obstacle 0, at position 0, collides and is recycled; obstacle 1, at
  position 1, is still at \<open>x = 100\<close> after the tick, although every obstacle that the loop
  reaches is moved by 6 to the left.
\<close>

theorem loop_skips_next_witness:
  "\<not> game_over pair \<and> game_loop Main quiet pair = Inr pair_tick \<and>
   in_play_obstacles (spawned quiet pair) = [0, 1] \<and>
   distinct (waiting_obstacles pair @ in_play_obstacles pair) \<and>
   0 \<notin> set (in_play_obstacles pair_tick) \<and>
   1 \<in> set (in_play_obstacles pair_tick) \<and>
   obstacles pair_tick 1 = obstacles pair 1 \<and>
   ob_xcor (obstacles pair 1) = 100 \<and>
   ob_xcor (obstacles pair_tick 1) = 100 \<and>
   reachable Main admitted \<and>
   distinct (waiting_obstacles admitted @ in_play_obstacles admitted)"
proof -
  have s: "in_play_obstacles (spawned quiet pair) = [0, 1]"
    by (simp add: spawned_def obstacle_due_def pickup_due_def tick_timers_def quiet_def
          pair_def struck_defs scene_defs)
  have h: "\<not> game_over pair" "distinct (waiting_obstacles pair @ in_play_obstacles pair)"
    "0 \<notin> set (in_play_obstacles pair_tick)" "ob_xcor (obstacles pair 1) = 100"
    by (simp_all add: game_over_def pair_def pair_tick_def struck_defs scene_defs)
  have "\<not> game_over pair \<and> game_loop Main quiet pair = Inr pair_tick \<and>
      distinct (waiting_obstacles pair @ in_play_obstacles pair) \<and>
      0 + 1 < length (in_play_obstacles (spawned quiet pair)) \<and>
      in_play_obstacles (spawned quiet pair) ! 0 \<notin> set (in_play_obstacles pair_tick)"
    using h game_loop_pair s by simp
  then have "in_play_obstacles (spawned quiet pair) ! (0 + 1) \<in> set (in_play_obstacles pair_tick) \<and>
      obstacles pair_tick (in_play_obstacles (spawned quiet pair) ! (0 + 1)) =
        obstacles pair (in_play_obstacles (spawned quiet pair) ! (0 + 1))"
    using loop_skips_next [where v = Main and inp = quiet and g = pair and g' = pair_tick and i = 0]
    by blast
  then have 1: "1 \<in> set (in_play_obstacles pair_tick) \<and> obstacles pair_tick 1 = obstacles pair 1"
    using s by simp
  have "distinct (waiting_obstacles admitted @ in_play_obstacles admitted)"
    using loop_skips_next [where v = Main and g = admitted] reachable_admitted by blast
  with 1 h s game_loop_pair reachable_admitted show ?thesis by simp
qed

section \<open>An obstacle at the player's position\<close>






















section \<open>The spacing of the obstacles\<close>

















text \<open>The invariant on a state of the game.\<close>

definition xs :: "game \<Rightarrow> nat \<Rightarrow> int" where
  "xs g = (\<lambda>k. ob_xcor (obstacles g k))"
















end
